theory Spec2Isabelle
  imports Main "HOL-Library.Word"
begin

unbundle bit_operations_syntax

section \<open>Errors\<close>

text \<open>
  Every panic and every error return of the Go source is a value of this type.
  \<open>OutOfFuel\<close> is not a Go error: it is the answer of a fuel-bounded recursion whose
  fuel ran out, so that a recursion that does not end is never mistaken for a result.
\<close>

datatype error =
    IndexOutOfRange
  | NilDereference
  | Panic string
  | IOError
  | ConfigInvalid
  | OutOfFuel

section \<open>The host program: splitting a reads file into lines\<close>

definition newline :: char where
  "newline = CHR 0x0A"

text \<open>
  \<open>bytes.Split(s, []byte{'\n'})\<close> of the Go library: the subslices between the
  separators, one more than the number of separators, so never an empty list.
\<close>

fun bytes_Split :: "string \<Rightarrow> string list" where
  "bytes_Split [] = [[]]"
| "bytes_Split (c # cs) =
     (if c = newline then [] # bytes_Split cs
      else (case bytes_Split cs of
              [] \<Rightarrow> [[c]]
            | l # ls \<Rightarrow> (c # l) # ls))"

text \<open>
  The loop of \<open>lines\<close>. Its condition is tested with the current \<open>lastLine\<close>; the body
  drops the last line; the post statement reads \<open>lines[len(lines)-1]\<close> again, which
  panics when the slice has just become empty.
\<close>

function lines_loop :: "string list \<Rightarrow> string \<Rightarrow> error + string list" where
  "lines_loop lns lastLine =
     (if length lns > 0 \<and> (length lastLine = 0 \<or> lastLine = [newline])
      then (let lns' = take (length lns - 1) lns
            in if length lns' = 0 then Inl IndexOutOfRange
               else lines_loop lns' (lns' ! (length lns' - 1)))
      else Inr lns)"
  by pat_completeness auto
termination
  by (relation "measure (\<lambda>(lns, lastLine). length lns)") auto

declare lines_loop.simps [simp del]

definition lines :: "string \<Rightarrow> error + string list" where
  "lines byteSlice =
     (let lns = bytes_Split byteSlice
      in if length lns = 0 then Inl IndexOutOfRange
         else lines_loop lns (lns ! (length lns - 1)))"

text \<open>
  \<open>fileLines\<close> returns the error of \<open>ioutil.ReadFile\<close>, here a parameter, or the lines of
  the file's bytes. The result is the returned pair, or the panic of \<open>lines\<close>.
\<close>

definition fileLines ::
  "(string \<Rightarrow> error + string) \<Rightarrow> string \<Rightarrow> error + error option \<times> string list" where
  "fileLines ReadFile filepath =
     (case ReadFile filepath of
        Inl err \<Rightarrow> Inr (Some err, [])
      | Inr rawBytes \<Rightarrow>
          (case lines rawBytes of
             Inl e \<Rightarrow> Inl e
           | Inr linesBytes \<Rightarrow> Inr (None, linesBytes)))"

text \<open>
  The handling of \<open>k\<close> and \<open>m\<close> in \<open>main\<close>: the two \<open>uint\<close> flags are checked against
  255 only, then converted to \<open>uint8\<close>; the pair is what \<open>main\<close> hands to
  \<open>repeatgenome.Generate\<close>, which is not among the sources.
\<close>

definition main_k_m :: "64 word \<Rightarrow> 64 word \<Rightarrow> error + 8 word \<times> 8 word" where
  "main_k_m k_arg m_arg =
     (if k_arg > 255 \<or> m_arg > 255
      then Inl (Panic ''k and m must be >= 255'')
      else Inr (ucast k_arg, ucast m_arg))"

text \<open>
  Modelled from the spec: \<open>repeatgenome.Generate\<close> is not among the sources. By the spec
  the configuration requires \<open>1 \<le> k \<le> 32\<close> and \<open>1 \<le> m \<le> k\<close>; \<open>k\<close> or \<open>m\<close> out of range,
  or \<open>m > k\<close>, is the error \<open>ConfigInvalid\<close>, fatal before any work begins. The work itself,
  the build of the index for \<open>k\<close> and \<open>m\<close>, is the parameter \<open>build\<close>.
\<close>

definition Generate :: "(8 word \<Rightarrow> 8 word \<Rightarrow> error + 'rg) \<Rightarrow> 8 word \<Rightarrow> 8 word \<Rightarrow> error + 'rg" where
  "Generate build k m =
     (if 1 \<le> k \<and> k \<le> 32 \<and> 1 \<le> m \<and> m \<le> k then build k m
      else Inl ConfigInvalid)"

text \<open>
  \<open>main\<close> from its check of \<open>k\<close> and \<open>m\<close> to the index: it calls \<open>Generate\<close> with the
  converted pair and panics with the error that \<open>Generate\<close> returns.
\<close>

definition main_Generate ::
  "(8 word \<Rightarrow> 8 word \<Rightarrow> error + 'rg) \<Rightarrow> 64 word \<Rightarrow> 64 word \<Rightarrow> error + 'rg" where
  "main_Generate build k_arg m_arg =
     (case main_k_m k_arg m_arg of
        Inl e \<Rightarrow> Inl e
      | Inr (k, m) \<Rightarrow>
          (case Generate build k m of
             Inl err \<Rightarrow> Inl err
           | Inr rg \<Rightarrow> Inr rg))"

text \<open>
  Modelled from the spec: the error kind \<open>ConfigInvalid\<close> is \<open>k\<close> or \<open>m\<close> out of range. In
  the program it is the error of \<open>Generate\<close>, or the host's panic on an argument that does
  not fit a \<open>uint8\<close>.
\<close>

definition is_ConfigInvalid :: "error \<Rightarrow> bool" where
  "is_ConfigInvalid e \<longleftrightarrow> e = ConfigInvalid \<or> e = Panic ''k and m must be >= 255''"

section \<open>Decoding a two-bit packed sequence\<close>

text \<open>The letter of a base value; the \<open>switch\<close> of \<open>fillSeq\<close> and \<open>writeSeqInt\<close>.\<close>

definition base_letter :: "64 word \<Rightarrow> error + char" where
  "base_letter b =
     (if b = 0 then Inr CHR ''a''
      else if b = 1 then Inr CHR ''c''
      else if b = 2 then Inr CHR ''g''
      else if b = 3 then Inr CHR ''t''
      else Inl (Panic ''error in printSeqInt() base selection''))"

text \<open>
  \<open>fillSeq\<close>: the loop \<open>for i := range slice\<close>, from index \<open>i\<close> on. The shift amount
  \<open>2 * (len(slice) - i - 1)\<close> is computed on Go's \<open>int\<close> and is never negative inside
  the loop.
\<close>

function fillSeq_loop :: "string \<Rightarrow> 64 word \<Rightarrow> nat \<Rightarrow> error + string" where
  "fillSeq_loop slc seqInt i =
     (if i < length slc
      then (case base_letter (drop_bit (2 * (length slc - i - 1)) seqInt AND 3) of
              Inl e \<Rightarrow> Inl e
            | Inr c \<Rightarrow> fillSeq_loop (slc[i := c]) seqInt (i + 1))
      else Inr slc)"
  by pat_completeness auto
termination
  by (relation "measure (\<lambda>(slc, seqInt, i). length slc - i)") auto

declare fillSeq_loop.simps [simp del]

definition fillSeq :: "string \<Rightarrow> 64 word \<Rightarrow> error + string" where
  "fillSeq slc seqInt =
     (if length slc > 32
      then Inl (Panic ''slice of length greater than 32 passed to fillSeq()'')
      else fillSeq_loop slc seqInt 0)"


text \<open>
  \<open>writeSeqInt\<close>: the same decoding, byte by byte into an \<open>io.ByteWriter\<close>, here any
  state \<open>'w\<close> with its \<open>WriteByte\<close>. The counter and the shift amount are \<open>uint8\<close>:
  \<open>2 * (seqLen - i - 1)\<close> wraps modulo 256. The first failed write is returned.
\<close>

lemma u8_less_Suc: "(i :: 8 word) < n \<Longrightarrow> unat (i + 1) = Suc (unat i)"
proof -
  assume "i < n"
  then have "unat i < unat n" by (simp add: word_less_nat_alt)
  moreover have "unat n < 2 ^ 8" using unsigned_less [of n] by simp
  ultimately have "unat i + 1 < 2 ^ 8" by simp
  then show ?thesis by (simp add: unat_word_ariths)
qed

function writeSeqInt_loop ::
  "('w \<Rightarrow> char \<Rightarrow> error + 'w) \<Rightarrow> 'w \<Rightarrow> 64 word \<Rightarrow> 8 word \<Rightarrow> 8 word \<Rightarrow> error + 'w" where
  "writeSeqInt_loop WriteByte writer seqInt seqLen i =
     (if i < seqLen
      then (case base_letter (drop_bit (unat (2 * (seqLen - i - 1))) seqInt AND 3) of
              Inl e \<Rightarrow> Inl e
            | Inr c \<Rightarrow>
                (case WriteByte writer c of
                   Inl e \<Rightarrow> Inl e
                 | Inr writer' \<Rightarrow> writeSeqInt_loop WriteByte writer' seqInt seqLen (i + 1)))
      else Inr writer)"
  by pat_completeness auto
termination
  by (relation "measure (\<lambda>(WriteByte, writer, seqInt, seqLen, i). unat seqLen - unat i)")
    (simp_all add: u8_less_Suc word_less_nat_alt)

declare writeSeqInt_loop.simps [simp del]

definition writeSeqInt ::
  "('w \<Rightarrow> char \<Rightarrow> error + 'w) \<Rightarrow> 'w \<Rightarrow> 64 word \<Rightarrow> 8 word \<Rightarrow> error + 'w" where
  "writeSeqInt WriteByte writer seqInt seqLen =
     writeSeqInt_loop WriteByte writer seqInt seqLen 0"

text \<open>An in-memory byte writer, whose \<open>WriteByte\<close> appends and never fails.\<close>

definition buffer_WriteByte :: "string \<Rightarrow> char \<Rightarrow> error + string" where
  "buffer_WriteByte buf c = Inr (buf @ [c])"

section \<open>The index: k-mer records and the class tree\<close>

text \<open>
  Modelled from the spec: the declaration of \<open>Kmer\<close> is not among the sources, which only
  use it. A k-mer record is the fixed 10-byte cell of the data model: 8 bytes of k-mer
  word, then 2 bytes of \<open>lcaID\<close>.
\<close>

type_synonym Kmer = "8 word list"

text \<open>
  The two loads of the sources, \<open>*(*uint64)(unsafe.Pointer(&kmer[0]))\<close> and
  \<open>*(*uint16)(unsafe.Pointer(&kmer[8]))\<close>: bytes 0..7 and bytes 8..9 of the record, read
  in the byte order of the machine, here little-endian.
\<close>

definition kmerSeqInt_of :: "Kmer \<Rightarrow> 64 word" where
  "kmerSeqInt_of kmer =
     horner_sum ucast (2 ^ 8) (take 8 kmer)"

definition lca_ID_of :: "Kmer \<Rightarrow> 16 word" where
  "lca_ID_of kmer =
     horner_sum ucast (2 ^ 8) (take 2 (drop 8 kmer))"

text \<open>
  Modelled from the spec: the declaration of \<open>ClassNode\<close> is not among the sources. A class
  node carries its name, its 16-bit id and the ordered list of its children, and these are
  the fields the sources read. The class tree is frozen after the build, so a pointer to
  a node is modelled by the node; the parent pointer, the repeat back-reference and the
  depth are not read by the functions below.
\<close>

datatype ClassNode = ClassNode (Name: string) (ID: "16 word") (Children: "ClassNode list")

text \<open>
  Modelled from the spec: the declaration of \<open>ClassTree\<close> is not among the sources. The
  sources read its map \<open>ClassNodes\<close> from names to nodes (a missing name gives Go's nil
  pointer), its slice \<open>NodesByID\<close>, indexed by id, and its root.
\<close>

record ClassTree =
  ClassNodes :: "string \<rightharpoonup> ClassNode"
  NodesByID :: "ClassNode list"
  Root :: ClassNode

text \<open>
  Modelled from the spec: the declaration of \<open>RepeatGenome\<close> is not among the sources. The
  sources read its name, the lengths \<open>K\<close> and \<open>M\<close> (of type \<open>uint8\<close>, as \<open>main\<close> passes
  them), the class tree and the table of k-mer records.
\<close>

record RepeatGenome =
  Name_rg :: string
  K :: "8 word"
  M :: "8 word"
  ClassTree :: ClassTree
  Kmers :: "Kmer list"

text \<open>\<open>JSONNode\<close>, the node of the tree that is handed to the JSON encoder.\<close>

datatype JSONNode =
  JSONNode (Name_json: string) (Size: "64 word") (Children_json: "JSONNode list")

section \<open>The JSON export of the class tree\<close>

text \<open>The nodes of a JSON tree in preorder.\<close>

fun json_nodes :: "JSONNode \<Rightarrow> JSONNode list" where
  "json_nodes (JSONNode name sz children) =
     JSONNode name sz children # concat (map json_nodes children)"

text \<open>
  The counting loop of \<open>WriteClassJSON\<close>. A Go map read at a missing key gives 0, so
  \<open>classToCount\<close> is a total function that starts as constant 0; the counts are
  \<open>uint64\<close>.
\<close>

fun classToCount_loop :: "Kmer list \<Rightarrow> (16 word \<Rightarrow> 64 word) \<Rightarrow> (16 word \<Rightarrow> 64 word)" where
  "classToCount_loop [] classToCount = classToCount"
| "classToCount_loop (kmer # rest) classToCount =
     classToCount_loop rest
       (classToCount (lca_ID_of kmer := classToCount (lca_ID_of kmer) + 1))"

text \<open>
  \<open>jsonRecPopulate\<close> looks the node up by name again at every level, so its recursion
  follows the map \<open>ClassNodes\<close>, not the structure of a node, and need not end: it takes
  fuel, one unit for each level. The loop over the children appends each child and
  populates it; a name missing from the map is a nil pointer dereference.
\<close>

fun jsonRecPopulate ::
    "nat \<Rightarrow> ClassTree \<Rightarrow> (16 word \<Rightarrow> 64 word) \<Rightarrow> JSONNode \<Rightarrow> error + JSONNode"
  and jsonRecPopulate_loop ::
    "nat \<Rightarrow> ClassTree \<Rightarrow> (16 word \<Rightarrow> 64 word) \<Rightarrow> ClassNode list \<Rightarrow> JSONNode \<Rightarrow> error + JSONNode"
  where
  "jsonRecPopulate 0 classTree classToCount jsonNode = Inl OutOfFuel"
| "jsonRecPopulate (Suc fuel) classTree classToCount jsonNode =
     (case ClassNodes classTree (Name_json jsonNode) of
        None \<Rightarrow> Inl NilDereference
      | Some classNode \<Rightarrow>
          jsonRecPopulate_loop fuel classTree classToCount (Children classNode) jsonNode)"
| "jsonRecPopulate_loop fuel classTree classToCount [] jsonNode = Inr jsonNode"
| "jsonRecPopulate_loop fuel classTree classToCount (c # rest) jsonNode =
     (case ClassNodes classTree (Name c) of
        None \<Rightarrow> Inl NilDereference
      | Some named \<Rightarrow>
          (case jsonRecPopulate fuel classTree classToCount
                  (JSONNode (Name c) (classToCount (ID named)) []) of
             Inl e \<Rightarrow> Inl e
           | Inr child \<Rightarrow>
               jsonRecPopulate_loop fuel classTree classToCount rest
                 (JSONNode (Name_json jsonNode) (Size jsonNode)
                    (Children_json jsonNode @ [child]))))"

text \<open>
  \<open>jsonRecSize\<close> adds to a node's size the sizes its children have after their own
  call; the Go method updates the node in place and returns its size, the model returns
  the updated node.
\<close>

fun jsonRecSize :: "JSONNode \<Rightarrow> JSONNode"
  and jsonRecSize_loop :: "JSONNode list \<Rightarrow> 64 word \<Rightarrow> JSONNode list \<Rightarrow> 64 word \<times> JSONNode list"
  where
  "jsonRecSize (JSONNode name sz children) =
     (case jsonRecSize_loop children sz [] of
        (sz', children') \<Rightarrow> JSONNode name sz' children')"
| "jsonRecSize_loop [] sz done = (sz, done)"
| "jsonRecSize_loop (child # rest) sz done =
     (let child' = jsonRecSize child
      in jsonRecSize_loop rest (sz + Size child') (done @ [child']))"

text \<open>
  \<open>deleteLeaves\<close> keeps, in order, the children that have children of their own, and
  calls itself on each child it keeps.
\<close>

fun deleteLeaves :: "JSONNode \<Rightarrow> JSONNode"
  and deleteLeaves_loop :: "JSONNode list \<Rightarrow> JSONNode list \<Rightarrow> JSONNode list"
  where
  "deleteLeaves (JSONNode name sz children) =
     JSONNode name sz (deleteLeaves_loop children [])"
| "deleteLeaves_loop [] branchChildren = branchChildren"
| "deleteLeaves_loop (child # rest) branchChildren =
     (if length (Children_json child) > 0
      then deleteLeaves_loop rest (branchChildren @ [deleteLeaves child])
      else deleteLeaves_loop rest branchChildren)"

text \<open>
  \<open>WriteClassJSON\<close>. It first creates the file \<open><name>.classtree.json\<close> and hands the
  error to \<open>checkError\<close>; it builds the tree, encodes it with \<open>json.MarshalIndent\<close>, hands
  that error to \<open>checkError\<close> too, and writes the text with \<open>fmt.Fprint\<close>, whose error it
  drops. The three library calls are parameters: \<open>Create\<close> gives the file or an error,
  \<open>MarshalIndent\<close> the text or an error, \<open>Fprint\<close> the file after the write. The package's
  \<open>checkError\<close> is not among the sources; as the function of that name in the
  repository's earlier script does (\<open>log.Fatal\<close> on an error), it ends the process, here
  with that error as the result. The Go method returns nothing; the result here is the
  tree that was encoded and the file after the write. The root's size is read at the
  literal key 0.
\<close>

definition WriteClassJSON ::
  "(string \<Rightarrow> error + 'w) \<Rightarrow> (JSONNode \<Rightarrow> error + string) \<Rightarrow> ('w \<Rightarrow> string \<Rightarrow> 'w) \<Rightarrow>
     nat \<Rightarrow> RepeatGenome \<Rightarrow> bool \<Rightarrow> bool \<Rightarrow> error + JSONNode \<times> 'w" where
  "WriteClassJSON Create MarshalIndent Fprint fuel repeatGenome useCumSize printLeaves =
     (let tree = ClassTree repeatGenome;
          filename = Name_rg repeatGenome @ ''.classtree.json''
      in case Create filename of
           Inl err \<Rightarrow> Inl err
         | Inr outfile \<Rightarrow>
             (let classToCount = classToCount_loop (Kmers repeatGenome) (\<lambda>_. 0);
                  root = JSONNode (Name (Root tree)) (classToCount 0) []
              in case jsonRecPopulate fuel tree classToCount root of
                   Inl e \<Rightarrow> Inl e
                 | Inr root1 \<Rightarrow>
                     (let root2 = (if useCumSize then jsonRecSize root1 else root1);
                          root3 = (if \<not> printLeaves then deleteLeaves root2 else root2)
                      in case MarshalIndent root3 of
                           Inl err \<Rightarrow> Inl err
                         | Inr jsonBytes \<Rightarrow> Inr (root3, Fprint outfile jsonBytes))))"

text \<open>
  For the examples: an encoder that never fails (its text is the names of the tree in
  preorder, one to a line) and a write that appends to the text of the file.
\<close>

definition example_MarshalIndent :: "JSONNode \<Rightarrow> string" where
  "example_MarshalIndent t = concat (map (\<lambda>n. Name_json n @ [newline]) (json_nodes t))"

definition buffer_Fprint :: "string \<Rightarrow> string \<Rightarrow> string" where
  "buffer_Fprint buf text = buf @ text"

section \<open>The human-readable dump of the index\<close>

text \<open>
  \<open>WriteMins\<close> writes through a buffered writer on a file it creates. The model takes the
  two operations that can fail, \<open>Create\<close> (which gives the writer) and \<open>Fprintf\<close> (with
  its text already formatted), and returns the first error or the final writer. The map
  \<open>minMap\<close> is the list of its entries in the order the \<open>range\<close> loop visits them.
  The two buffers are allocated once and refilled by \<open>fillSeq\<close>.
\<close>

definition tab :: char where
  "tab = CHR 0x09"

fun WriteMins_kmers ::
  "('w \<Rightarrow> string \<Rightarrow> error + 'w) \<Rightarrow> RepeatGenome \<Rightarrow> Kmer list \<Rightarrow> string \<Rightarrow> 'w \<Rightarrow>
     error + string \<times> 'w" where
  "WriteMins_kmers Fprintf repeatGenome [] kmerBuf writer = Inr (kmerBuf, writer)"
| "WriteMins_kmers Fprintf repeatGenome (kmer # rest) kmerBuf writer =
     (let kmerSeqInt = kmerSeqInt_of kmer;
          lca_ID = lca_ID_of kmer
      in case fillSeq kmerBuf kmerSeqInt of
           Inl e \<Rightarrow> Inl e
         | Inr kmerBuf' \<Rightarrow>
             if unat lca_ID < length (NodesByID (ClassTree repeatGenome))
             then (case Fprintf writer
                          ([tab] @ kmerBuf' @ '' '' @
                           Name (NodesByID (ClassTree repeatGenome) ! unat lca_ID) @ [newline]) of
                     Inl e \<Rightarrow> Inl e
                   | Inr writer' \<Rightarrow> WriteMins_kmers Fprintf repeatGenome rest kmerBuf' writer')
             else Inl IndexOutOfRange)"

fun WriteMins_buckets ::
  "('w \<Rightarrow> string \<Rightarrow> error + 'w) \<Rightarrow> RepeatGenome \<Rightarrow> (64 word \<times> Kmer list) list \<Rightarrow>
     string \<Rightarrow> string \<Rightarrow> 'w \<Rightarrow> error + 'w" where
  "WriteMins_buckets Fprintf repeatGenome [] minBuf kmerBuf writer = Inr writer"
| "WriteMins_buckets Fprintf repeatGenome ((thisMin, kmers) # rest) minBuf kmerBuf writer =
     (case fillSeq minBuf thisMin of
        Inl e \<Rightarrow> Inl e
      | Inr minBuf' \<Rightarrow>
          (case Fprintf writer (''>'' @ minBuf' @ [newline]) of
             Inl e \<Rightarrow> Inl e
           | Inr writer1 \<Rightarrow>
               (case WriteMins_kmers Fprintf repeatGenome kmers kmerBuf writer1 of
                  Inl e \<Rightarrow> Inl e
                | Inr (kmerBuf', writer2) \<Rightarrow>
                    WriteMins_buckets Fprintf repeatGenome rest minBuf' kmerBuf' writer2)))"

definition WriteMins ::
  "(string \<Rightarrow> error + 'w) \<Rightarrow> ('w \<Rightarrow> string \<Rightarrow> error + 'w) \<Rightarrow> RepeatGenome \<Rightarrow>
     (64 word \<times> Kmer list) list \<Rightarrow> error + 'w" where
  "WriteMins Create Fprintf repeatGenome minMap =
     (let k = K repeatGenome;
          m = M repeatGenome;
          kmerBuf = replicate (unat k) (CHR 0x00);
          minBuf = replicate (unat m) (CHR 0x00);
          filename = Name_rg repeatGenome @ ''.mins''
      in case Create filename of
           Inl e \<Rightarrow> Inl e
         | Inr writer \<Rightarrow> WriteMins_buckets Fprintf repeatGenome minMap minBuf kmerBuf writer)"

text \<open>A file and writer that never fail: the writer is the text written so far.\<close>

definition buffer_Create :: "string \<Rightarrow> error + string" where
  "buffer_Create filename = Inr []"

definition buffer_Fprintf :: "string \<Rightarrow> string \<Rightarrow> error + string" where
  "buffer_Fprintf buf text = Inr (buf @ text)"

section \<open>The sequence codec and the read classifier, as specified\<close>

text \<open>
  Modelled from the spec: \<open>reverse_complement\<close> is not among the sources. The spec
  describes it as complementing the valid \<open>2*len\<close> low bits and then reversing the base
  pairs in constant time by swapping bit pairs, nibbles and larger groups. One swap step
  exchanges the neighbouring groups of \<open>s\<close> bits that the mask \<open>m\<close> selects.
\<close>

definition swap_groups :: "nat \<Rightarrow> 64 word \<Rightarrow> 64 word \<Rightarrow> 64 word" where
  "swap_groups s m w = (drop_bit s w AND m) OR push_bit s (w AND m)"

text \<open>
  Modelled from the spec: the reversal of all 32 base pairs of a 64-bit word, by five swap
  steps on groups of 2, 4, 8, 16 and 32 bits.
\<close>

definition reverse_pairs :: "64 word \<Rightarrow> 64 word" where
  "reverse_pairs w =
     (let w1 = swap_groups 2 0x3333333333333333 w;
          w2 = swap_groups 4 0x0F0F0F0F0F0F0F0F w1;
          w3 = swap_groups 8 0x00FF00FF00FF00FF w2;
          w4 = swap_groups 16 0x0000FFFF0000FFFF w3
      in swap_groups 32 0x00000000FFFFFFFF w4)"

text \<open>
  Modelled from the spec: the reversal of the \<open>len\<close> base pairs in the valid \<open>2*len\<close> low
  bits. The swaps reverse all 32 pairs of the word, which leaves those \<open>len\<close> pairs in the
  top bits, so they are shifted back down to the valid low bits; nothing else remains.
\<close>

definition reverse_low_pairs :: "64 word \<Rightarrow> nat \<Rightarrow> 64 word" where
  "reverse_low_pairs w len = drop_bit (64 - 2 * len) (reverse_pairs w)"

text \<open>
  Modelled from the spec: \<open>reverse_complement\<close> complements the valid \<open>2*len\<close> low bits and
  then reverses the base pairs. The bits above the valid ones, which that description
  does not touch, stay as they are; in a sequence word of \<open>len\<close> bases they are zero.
\<close>

definition reverse_complement :: "64 word \<Rightarrow> nat \<Rightarrow> 64 word" where
  "reverse_complement w len =
     (w AND NOT (mask (2 * len))) OR reverse_low_pairs (w XOR mask (2 * len)) len"





text \<open>
  Modelled from the spec: \<open>encode_kmer\<close> is not among the sources. It accepts only the
  letters a, c, g, t in either case, with the values 0, 1, 2, 3, and packs them with the
  leftmost base in the highest bit pair; any other byte makes the k-mer undefined.
\<close>

definition base_code :: "char \<Rightarrow> 64 word option" where
  "base_code c =
     (if c = CHR ''a'' \<or> c = CHR ''A'' then Some 0
      else if c = CHR ''c'' \<or> c = CHR ''C'' then Some 1
      else if c = CHR ''g'' \<or> c = CHR ''G'' then Some 2
      else if c = CHR ''t'' \<or> c = CHR ''T'' then Some 3
      else None)"

text \<open>Modelled from the spec: the packing loop of \<open>encode_kmer\<close>.\<close>

fun encode_from :: "64 word \<Rightarrow> string \<Rightarrow> 64 word option" where
  "encode_from acc [] = Some acc"
| "encode_from acc (c # cs) =
     (case base_code c of
        None \<Rightarrow> None
      | Some b \<Rightarrow> encode_from (push_bit 2 acc OR b) cs)"

text \<open>Modelled from the spec: \<open>encode_kmer\<close>, undefined on any byte that is not a base.\<close>

definition encode_kmer :: "string \<Rightarrow> 64 word option" where
  "encode_kmer bs = encode_from 0 bs"

text \<open>
  Modelled from the spec: the canonical form, the smaller of a word and its reverse
  complement in unsigned order.
\<close>

definition canonical :: "64 word \<Rightarrow> nat \<Rightarrow> 64 word" where
  "canonical w len = min w (reverse_complement w len)"

text \<open>
  Modelled from the spec: the windows of length \<open>k\<close> along a read, one for each start
  position; a read shorter than \<open>k\<close> has none.
\<close>

definition windows :: "nat \<Rightarrow> string \<Rightarrow> string list" where
  "windows k read =
     (if length read < k then []
      else map (\<lambda>i. take k (drop i read)) [0..<length read - k + 1])"

text \<open>Modelled from the spec: the id of the root of the class tree is 0.\<close>

definition root_id :: "16 word" where
  "root_id = 0"

text \<open>
  Modelled from the spec: the read classifier is not among the sources. It takes the
  index lookup \<open>contains\<close> and the tree's \<open>lca\<close> as given, and goes through the windows
  with an accumulator that starts undefined: a window with a byte that is not a base is
  skipped, a miss contributes nothing, a hit sets the accumulator or joins it by \<open>lca\<close>,
  and an accumulator equal to the root ends the read as unclassified.
\<close>

fun classify_windows ::
  "(64 word \<Rightarrow> 16 word option) \<Rightarrow> (16 word \<Rightarrow> 16 word \<Rightarrow> 16 word) \<Rightarrow> nat \<Rightarrow>
     string list \<Rightarrow> 16 word option \<Rightarrow> 16 word option" where
  "classify_windows contains lca k [] acc = acc"
| "classify_windows contains lca k (win # rest) acc =
     (case encode_kmer win of
        None \<Rightarrow> classify_windows contains lca k rest acc
      | Some w \<Rightarrow>
          (case contains (canonical w k) of
             None \<Rightarrow> classify_windows contains lca k rest acc
           | Some c \<Rightarrow>
               (let acc' = (case acc of None \<Rightarrow> c | Some a \<Rightarrow> lca a c)
                in if acc' = root_id then None
                   else classify_windows contains lca k rest (Some acc'))))"

text \<open>
  Modelled from the spec: the classification of a read, an optional class id; the
  specified classifier has no error result.
\<close>

definition classify ::
  "(64 word \<Rightarrow> 16 word option) \<Rightarrow> (16 word \<Rightarrow> 16 word \<Rightarrow> 16 word) \<Rightarrow> nat \<Rightarrow>
     string \<Rightarrow> 16 word option" where
  "classify contains lca k read = classify_windows contains lca k (windows k read) None"

text \<open>
  The hits of a read, in order: the class ids the index gives for the canonical words of
  its windows; and the plain left fold of \<open>lca\<close> over a list of hits, with no early exit.
\<close>

definition window_hit :: "(64 word \<Rightarrow> 16 word option) \<Rightarrow> nat \<Rightarrow> string \<Rightarrow> 16 word option" where
  "window_hit contains k win =
     (case encode_kmer win of None \<Rightarrow> None | Some w \<Rightarrow> contains (canonical w k))"

definition read_hits :: "(64 word \<Rightarrow> 16 word option) \<Rightarrow> nat \<Rightarrow> string \<Rightarrow> 16 word list" where
  "read_hits contains k read = List.map_filter (window_hit contains k) (windows k read)"

fun lca_fold :: "(16 word \<Rightarrow> 16 word \<Rightarrow> 16 word) \<Rightarrow> 16 word option \<Rightarrow> 16 word list \<Rightarrow> 16 word option" where
  "lca_fold lca acc [] = acc"
| "lca_fold lca acc (c # cs) =
     lca_fold lca (Some (case acc of None \<Rightarrow> c | Some a \<Rightarrow> lca a c)) cs"

definition fold_reaches_root :: "(16 word \<Rightarrow> 16 word \<Rightarrow> 16 word) \<Rightarrow> 16 word list \<Rightarrow> bool" where
  "fold_reaches_root lca hits \<longleftrightarrow>
     (\<exists>n \<in> set [0..<Suc (length hits)]. lca_fold lca None (take n hits) = Some root_id)"

text \<open>The classifier's fold over the hits alone, with its early exit at the root.\<close>

fun fold_hits :: "(16 word \<Rightarrow> 16 word \<Rightarrow> 16 word) \<Rightarrow> 16 word list \<Rightarrow> 16 word option \<Rightarrow> 16 word option" where
  "fold_hits lca [] acc = acc"
| "fold_hits lca (c # cs) acc =
     (let acc' = (case acc of None \<Rightarrow> c | Some a \<Rightarrow> lca a c)
      in if acc' = root_id then None else fold_hits lca cs (Some acc'))"


text \<open>A small index and a flat \<open>lca\<close> for the examples.\<close>

definition example_contains :: "64 word \<Rightarrow> 16 word option" where
  "example_contains w = (if w = 27 then Some 2 else if w = 0 then Some 4 else None)"

definition example_lca :: "16 word \<Rightarrow> 16 word \<Rightarrow> 16 word" where
  "example_lca a b = (if a = b then a else 0)"



section \<open>What the exports are specified to contain\<close>

text \<open>
  The nodes of a class tree in preorder, its height, and the condition that the name map
  gives back each node of the tree under its own name (names are unique).
\<close>

fun nodes :: "ClassNode \<Rightarrow> ClassNode list" where
  "nodes (ClassNode name i children) =
     ClassNode name i children # concat (map nodes children)"

fun height :: "ClassNode \<Rightarrow> nat" where
  "height (ClassNode name i children) = Suc (fold max (map height children) 0)"

definition names_consistent :: "ClassTree \<Rightarrow> ClassNode \<Rightarrow> bool" where
  "names_consistent classTree n \<longleftrightarrow>
     (\<forall>x \<in> set (nodes n). ClassNodes classTree (Name x) = Some x)"

text \<open>
  The JSON tree in the spec's words: the size of a node is the number of k-mer records
  labelled with exactly that node, or that number plus the sizes of its children when
  sizes are cumulative.
\<close>

definition spec_count :: "Kmer list \<Rightarrow> 16 word \<Rightarrow> 64 word" where
  "spec_count kmers i = of_nat (length (filter (\<lambda>kmer. lca_ID_of kmer = i) kmers))"

fun spec_json :: "bool \<Rightarrow> Kmer list \<Rightarrow> ClassNode \<Rightarrow> JSONNode" where
  "spec_json cumulative kmers (ClassNode name i children) =
     JSONNode name
       (if cumulative
        then spec_count kmers i + sum_list (map (\<lambda>c. Size (spec_json cumulative kmers c)) children)
        else spec_count kmers i)
       (map (spec_json cumulative kmers) children)"

text \<open>
  The tree the export is to encode: the tree above, and, when leaves are not printed,
  what \<open>deleteLeaves\<close> leaves of it.
\<close>

definition spec_export :: "bool \<Rightarrow> bool \<Rightarrow> Kmer list \<Rightarrow> ClassNode \<Rightarrow> JSONNode" where
  "spec_export cumulative printLeaves kmers root =
     (if printLeaves then spec_json cumulative kmers root
      else deleteLeaves (spec_json cumulative kmers root))"

text \<open>
  The dump in the spec's words: the text of a packed sequence, the name of the class node
  with a given id, the line of a record and the text of a bucket.
\<close>

definition spec_decode :: "nat \<Rightarrow> 64 word \<Rightarrow> string" where
  "spec_decode len w =
     map (\<lambda>i. ''acgt'' ! unat (drop_bit (2 * (len - 1 - i)) w AND 3)) [0..<len]"

definition spec_class_name :: "ClassTree \<Rightarrow> 16 word \<Rightarrow> string" where
  "spec_class_name classTree i =
     (case find (\<lambda>n. ID n = i) (NodesByID classTree) of
        None \<Rightarrow> []
      | Some n \<Rightarrow> Name n)"

definition spec_record_line :: "RepeatGenome \<Rightarrow> Kmer \<Rightarrow> string" where
  "spec_record_line rg kmer =
     [tab] @ spec_decode (unat (K rg)) (kmerSeqInt_of kmer) @ '' '' @
     spec_class_name (ClassTree rg) (lca_ID_of kmer) @ [newline]"

definition spec_bucket_text :: "RepeatGenome \<Rightarrow> 64 word \<times> Kmer list \<Rightarrow> string" where
  "spec_bucket_text rg bucket =
     ''>'' @ spec_decode (unat (M rg)) (fst bucket) @ [newline] @
     concat (map (spec_record_line rg) (snd bucket))"

text \<open>
  The invariants of the index the dump relies on: the node at index \<open>i\<close> of \<open>NodesByID\<close>
  has id \<open>i\<close>, and every record's \<open>lcaID\<close> is an index of \<open>NodesByID\<close>.
\<close>

definition NodesByID_indexed :: "ClassTree \<Rightarrow> bool" where
  "NodesByID_indexed classTree \<longleftrightarrow>
     map ID (NodesByID classTree) = map of_nat [0..<length (NodesByID classTree)]"

definition lca_IDs_in_tree :: "ClassTree \<Rightarrow> (64 word \<times> Kmer list) list \<Rightarrow> bool" where
  "lca_IDs_in_tree classTree minMap \<longleftrightarrow>
     (\<forall>bucket \<in> set minMap. \<forall>kmer \<in> set (snd bucket).
        unat (lca_ID_of kmer) < length (NodesByID classTree))"

text \<open>Every record's \<open>lcaID\<close> is the id of exactly one node of the class tree.\<close>

definition lca_IDs_name_one_node :: "RepeatGenome \<Rightarrow> bool" where
  "lca_IDs_name_one_node rg \<longleftrightarrow>
     (\<forall>kmer \<in> set (Kmers rg).
        length (filter (\<lambda>n. ID n = lca_ID_of kmer) (nodes (Root (ClassTree rg)))) = 1)"

text \<open>A small index for the examples: five classes, four records, two buckets.\<close>

definition example_tree :: ClassNode where
  "example_tree = ClassNode ''root'' 0
     [ClassNode ''A'' 1 [ClassNode ''A/B'' 2 [], ClassNode ''A/C'' 3 []],
      ClassNode ''D'' 4 []]"

definition example_classTree :: ClassTree where
  "example_classTree =
     \<lparr>ClassNodes = map_of (map (\<lambda>n. (Name n, n)) (nodes example_tree)),
      NodesByID = nodes example_tree,
      Root = example_tree\<rparr>"

definition example_rg :: RepeatGenome where
  "example_rg =
     \<lparr>Name_rg = ''example'', K = 4, M = 2, ClassTree = example_classTree,
      Kmers = [[27, 0, 0, 0, 0, 0, 0, 0, 2, 0], [6, 0, 0, 0, 0, 0, 0, 0, 2, 0],
               [1, 0, 0, 0, 0, 0, 0, 0, 3, 0], [228, 0, 0, 0, 0, 0, 0, 0, 0, 0]]\<rparr>"

definition example_minMap :: "(64 word \<times> Kmer list) list" where
  "example_minMap =
     [(1, [[27, 0, 0, 0, 0, 0, 0, 0, 2, 0], [6, 0, 0, 0, 0, 0, 0, 0, 2, 0]]),
      (0, [[1, 0, 0, 0, 0, 0, 0, 0, 3, 0]])]"

text \<open>The tree that \<open>jsonRecPopulate\<close> builds from a table of counts.\<close>

fun json_exact :: "(16 word \<Rightarrow> 64 word) \<Rightarrow> ClassNode \<Rightarrow> JSONNode" where
  "json_exact c2c (ClassNode name i children) =
     JSONNode name (c2c i) (map (json_exact c2c) children)"

text \<open>What a node of the JSON tree shows besides its children.\<close>

definition label :: "JSONNode \<Rightarrow> string \<times> 64 word" where
  "label n = (Name_json n, Size n)"

section \<open>Properties of the line splitter\<close>

lemma bytes_Split_nonempty: "bytes_Split bs \<noteq> []"
  by (induction bs) (auto split: list.splits)

lemma bytes_Split_all_empty_iff:
  "(\<forall>l \<in> set (bytes_Split bs). l = []) \<longleftrightarrow> set bs \<subseteq> {newline}"
  by (induction bs) (auto split: list.splits simp: bytes_Split_nonempty)

lemma lines_loop_all_empty:
  "lns \<noteq> [] \<Longrightarrow> \<forall>l \<in> set lns. l = [] \<Longrightarrow> lastLine = [] \<Longrightarrow>
   lines_loop lns lastLine = Inl IndexOutOfRange"
proof (induction lns lastLine rule: lines_loop.induct)
  case (1 lns lastLine)
  let ?lns' = "take (length lns - 1) lns"
  show ?case
  proof (cases "length ?lns' = 0")
    case True
    with 1(2,4) show ?thesis
      by (subst lines_loop.simps) (simp add: Let_def)
  next
    case False
    have sub: "\<forall>l \<in> set ?lns'. l = []"
      using 1(3) by (meson in_set_takeD)
    have last_in: "?lns' ! (length ?lns' - 1) \<in> set ?lns'"
      using False by (intro nth_mem) simp
    have "lines_loop ?lns' (?lns' ! (length ?lns' - 1)) = Inl IndexOutOfRange"
      using 1(1)[OF _ refl False] 1(2,4) False sub last_in by auto
    with 1(2,4) False show ?thesis
      by (subst lines_loop.simps) (simp add: Let_def)
  qed
qed

text \<open>
  Claim C8. When every newline-separated line of the input is empty (the empty slice, or
  a slice of newline bytes only), \<open>lines\<close> drops lines until its slice is empty and then
  reads the element at \<open>len(lines)-1\<close>: it panics with an index out of range and returns
  no list. So does \<open>fileLines\<close> on a file with such contents, an empty file for one.
\<close>

theorem lines_panics_on_blank_input:
  assumes "\<forall>l \<in> set (bytes_Split byteSlice). l = []"
  shows "lines byteSlice = Inl IndexOutOfRange \<and>
         fileLines (\<lambda>name. Inr byteSlice) filepath = Inl IndexOutOfRange"
proof -
  let ?lns = "bytes_Split byteSlice"
  have ne: "?lns \<noteq> []" by (rule bytes_Split_nonempty)
  then have "?lns ! (length ?lns - 1) \<in> set ?lns" by (intro nth_mem) simp
  with assms have "?lns ! (length ?lns - 1) = []" by blast
  with ne assms have "lines byteSlice = Inl IndexOutOfRange"
    by (simp add: lines_def Let_def lines_loop_all_empty)
  then show ?thesis by (simp add: fileLines_def)
qed

theorem lines_panics_on_blank_input_witness:
  "bytes_Split [newline, newline] = [[], [], []] \<and>
   lines [newline, newline] = Inl IndexOutOfRange \<and>
   bytes_Split [] = [[]] \<and> lines [] = Inl IndexOutOfRange \<and>
   fileLines (\<lambda>name. Inr []) ''empty.proc'' = Inl IndexOutOfRange"
proof -
  have h: "\<forall>l \<in> set (bytes_Split [newline, newline]). l = []" by simp
  have h0: "\<forall>l \<in> set (bytes_Split []). l = []" by simp
  show ?thesis
    using lines_panics_on_blank_input [OF h] lines_panics_on_blank_input [OF h0] by simp
qed

text \<open>
  For contrast: a slice with a line that is not empty is split, and its trailing empty
  lines are dropped.
\<close>

lemma lines_example:
  "lines (''ac'' @ [newline] @ [newline] @ ''gt'' @ [newline, newline]) = Inr [''ac'', [], ''gt'']"
  by code_simp

section \<open>Properties of the decoder\<close>

lemma and3_cases:
  "(x AND 3 :: 64 word) = 0 \<or> x AND 3 = 1 \<or> x AND 3 = 2 \<or> x AND 3 = 3"
proof -
  have "unat (x AND 3) \<le> unat (3 :: 64 word)"
    by (rule word_and_le1 [THEN word_le_nat_alt [THEN iffD1]])
  then have "unat (x AND 3) \<le> 3" by simp
  then have "unat (x AND 3) = 0 \<or> unat (x AND 3) = 1 \<or>
             unat (x AND 3) = 2 \<or> unat (x AND 3) = 3"
    by arith
  then show ?thesis
    by (simp add: word_unat_eq_iff)
qed

lemma base_letter_and3:
  "base_letter (x AND 3) = Inr (''acgt'' ! unat (x AND 3))"
  using and3_cases [of x] by (auto simp: base_letter_def)

lemma fillSeq_loop_eq:
  "i \<le> length slc \<Longrightarrow>
   fillSeq_loop slc w i =
     Inr (take i slc @
          map (\<lambda>j. ''acgt'' ! unat (drop_bit (2 * (length slc - 1 - j)) w AND 3))
            [i..<length slc])"
proof (induction slc w i rule: fillSeq_loop.induct)
  case (1 slc w i)
  show ?case
  proof (cases "i < length slc")
    case True
    let ?c = "''acgt'' ! unat (drop_bit (2 * (length slc - i - 1)) w AND 3)"
    have bl: "base_letter (drop_bit (2 * (length slc - i - 1)) w AND 3) = Inr ?c"
      by (rule base_letter_and3)
    have IH: "fillSeq_loop (slc[i := ?c]) w (i + 1) =
        Inr (take (i + 1) (slc[i := ?c]) @
          map (\<lambda>j. ''acgt'' ! unat (drop_bit (2 * (length (slc[i := ?c]) - 1 - j)) w AND 3))
            [i + 1..<length (slc[i := ?c])])"
      using 1(1)[OF True bl] True by simp
    have tk: "take (i + 1) (slc[i := ?c]) = take i slc @ [?c]"
      using True by (simp add: take_Suc_conv_app_nth)
    have up: "[i..<length slc] = i # [i + 1..<length slc]"
      using True by (simp add: upt_conv_Cons)
    have step: "fillSeq_loop slc w i = fillSeq_loop (slc[i := ?c]) w (i + 1)"
      by (subst fillSeq_loop.simps) (simp only: True if_True bl sum.case)
    show ?thesis
      unfolding step IH tk by (subst up) simp
  next
    case False
    with 1(2) show ?thesis
      by (subst fillSeq_loop.simps) simp
  qed
qed

lemma fillSeq_eq:
  "length slc \<le> 32 \<Longrightarrow>
   fillSeq slc w =
     Inr (map (\<lambda>j. ''acgt'' ! unat (drop_bit (2 * (length slc - 1 - j)) w AND 3))
            [0..<length slc])"
  by (simp add: fillSeq_def fillSeq_loop_eq)

lemma u8_shift_count:
  assumes "(i :: 8 word) < seqLen" "seqLen \<le> 32"
  shows "unat (2 * (seqLen - i - 1)) = 2 * (unat seqLen - unat i - 1)"
proof -
  have a: "unat i < unat seqLen" using assms(1) by (simp add: word_less_nat_alt)
  have b: "unat seqLen \<le> 32" using assms(2) by (simp add: word_le_nat_alt)
  have c: "unat (seqLen - i) = unat seqLen - unat i"
    using a by (simp add: unat_sub word_le_nat_alt)
  have d: "unat (seqLen - i - 1) = unat seqLen - unat i - 1"
    using a c by (simp add: unat_sub word_le_nat_alt)
  have e: "unat (2 * (seqLen - i - 1)) = (2 * unat (seqLen - i - 1)) mod 2 ^ 8"
    using unat_word_ariths(2) [of 2 "seqLen - i - 1"] by simp
  have "2 * (unat seqLen - unat i - 1) < 2 ^ 8" using b by simp
  then show ?thesis
    unfolding e d by simp
qed

lemma writeSeqInt_loop_buffer:
  "seqLen \<le> 32 \<Longrightarrow> i \<le> seqLen \<Longrightarrow>
   writeSeqInt_loop buffer_WriteByte buf w seqLen i =
     Inr (buf @ map (\<lambda>j. ''acgt'' ! unat (drop_bit (2 * (unat seqLen - 1 - j)) w AND 3))
                  [unat i..<unat seqLen])"
proof (induction buffer_WriteByte buf w seqLen i rule: writeSeqInt_loop.induct)
  case (1 writer seqInt seqLen i)
  show ?case
  proof (cases "i < seqLen")
    case True
    let ?c = "''acgt'' ! unat (drop_bit (2 * (unat seqLen - unat i - 1)) seqInt AND 3)"
    have bl: "base_letter (drop_bit (unat (2 * (seqLen - i - 1))) seqInt AND 3) = Inr ?c"
      using u8_shift_count [OF True 1(2)] by (simp add: base_letter_and3)
    have wb: "buffer_WriteByte writer ?c = Inr (writer @ [?c])"
      by (simp add: buffer_WriteByte_def)
    have le: "i + 1 \<le> seqLen" using True by (simp add: inc_le)
    have IH: "writeSeqInt_loop buffer_WriteByte (writer @ [?c]) seqInt seqLen (i + 1) =
       Inr ((writer @ [?c]) @
            map (\<lambda>j. ''acgt'' ! unat (drop_bit (2 * (unat seqLen - 1 - j)) seqInt AND 3))
              [unat (i + 1)..<unat seqLen])"
      by (rule 1(1)[OF True bl wb 1(2) le])
    have step: "writeSeqInt_loop buffer_WriteByte writer seqInt seqLen i =
        writeSeqInt_loop buffer_WriteByte (writer @ [?c]) seqInt seqLen (i + 1)"
      by (subst writeSeqInt_loop.simps) (simp only: True if_True bl wb sum.case)
    have lt: "unat i < unat seqLen" using True by (simp add: word_less_nat_alt)
    have up: "[unat i..<unat seqLen] = unat i # [unat (i + 1)..<unat seqLen]"
      using lt by (simp add: upt_conv_Cons u8_less_Suc [OF True])
    show ?thesis
      unfolding step IH by (subst up) simp
  next
    case False
    then have "unat seqLen \<le> unat i" by (simp add: word_less_nat_alt)
    with False show ?thesis
      by (subst writeSeqInt_loop.simps) simp
  qed
qed

text \<open>
  Claim C2. For every 64-bit word and every length of at most 32, decoding gives exactly
  that many bytes, and byte \<open>i\<close> is the lowercase letter, in the alphabet a=0, c=1, g=2,
  t=3, of the base value \<open>(word >> 2*(len-1-i)) & 3\<close>: the leftmost letter comes from the
  highest used bit pair. This holds for \<open>fillSeq\<close>, which overwrites a buffer of that
  length, and for \<open>writeSeqInt\<close>, which appends the same bytes to a writer that accepts
  them.
\<close>

theorem decode_bytes:
  assumes "length slc \<le> 32"
  shows "\<exists>out. fillSeq slc w = Inr out \<and> length out = length slc \<and>
           (\<forall>i < length slc.
              out ! i = ''acgt'' ! unat (drop_bit (2 * (length slc - 1 - i)) w AND 3)) \<and>
           writeSeqInt buffer_WriteByte buf w (of_nat (length slc)) = Inr (buf @ out)"
proof -
  let ?len = "of_nat (length slc) :: 8 word"
  let ?out = "map (\<lambda>j. ''acgt'' ! unat (drop_bit (2 * (length slc - 1 - j)) w AND 3))
                [0..<length slc]"
  have un: "unat ?len = length slc"
    using assms by (simp add: unat_of_nat)
  then have le: "?len \<le> 32"
    using assms by (simp add: word_le_nat_alt)
  have "writeSeqInt buffer_WriteByte buf w ?len = Inr (buf @ ?out)"
    unfolding writeSeqInt_def using writeSeqInt_loop_buffer [OF le, of 0 buf w]
    by (simp add: un)
  moreover have "fillSeq slc w = Inr ?out"
    using assms by (rule fillSeq_eq)
  ultimately show ?thesis by simp
qed

theorem decode_bytes_witness:
  "length ''xxxx'' \<le> 32 \<and> fillSeq ''xxxx'' 27 = Inr ''acgt'' \<and>
   writeSeqInt buffer_WriteByte ''>'' 27 4 = Inr ''>acgt''"
proof -
  have h: "length ''xxxx'' \<le> 32" by simp
  from decode_bytes [OF h, of 27 "''>''"]
  obtain out where o: "fillSeq ''xxxx'' 27 = Inr out" "length out = length ''xxxx''"
    "\<forall>i < length ''xxxx''.
       out ! i = ''acgt'' ! unat (drop_bit (2 * (length ''xxxx'' - 1 - i)) (27 :: 64 word) AND 3)"
    "writeSeqInt buffer_WriteByte ''>'' 27 (of_nat (length ''xxxx'')) = Inr (''>'' @ out)"
    by blast
  have len: "length out = 4" using o(2) by simp
  have "out ! 0 = CHR ''a''" "out ! 1 = CHR ''c''" "out ! 2 = CHR ''g''" "out ! 3 = CHR ''t''"
    using o(3) by (simp_all add: drop_bit_eq_div)
  with len have "out = ''acgt''"
    by (simp add: list_eq_iff_nth_eq less_Suc_eq numeral_eq_Suc)
  with o h show ?thesis by simp
qed

section \<open>Properties of the JSON export\<close>

lemma classToCount_loop_eq:
  "classToCount_loop kmers f i =
     f i + of_nat (length (filter (\<lambda>kmer. lca_ID_of kmer = i) kmers))"
  by (induction kmers arbitrary: f) auto

lemma classToCount_spec: "classToCount_loop kmers (\<lambda>_. 0) = spec_count kmers"
  by (rule ext) (simp add: classToCount_loop_eq spec_count_def)

lemma jsonRecSize_loop_eq:
  "jsonRecSize_loop cs sz acc =
     (sz + sum_list (map (\<lambda>c. Size (jsonRecSize c)) cs), acc @ map jsonRecSize cs)"
  by (induction cs arbitrary: sz acc) (simp_all add: Let_def add.assoc)

lemma jsonRecSize_eq:
  "jsonRecSize (JSONNode name sz cs) =
     JSONNode name (sz + sum_list (map (\<lambda>c. Size (jsonRecSize c)) cs)) (map jsonRecSize cs)"
  by (simp add: jsonRecSize_loop_eq)

lemma deleteLeaves_loop_eq:
  "deleteLeaves_loop cs acc =
     acc @ map deleteLeaves (filter (\<lambda>c. Children_json c \<noteq> []) cs)"
  by (induction cs arbitrary: acc) simp_all

lemma deleteLeaves_eq:
  "deleteLeaves (JSONNode name sz cs) =
     JSONNode name sz (map deleteLeaves (filter (\<lambda>c. Children_json c \<noteq> []) cs))"
  by (simp add: deleteLeaves_loop_eq)

lemma height_pos: "0 < height n"
  by (cases n) simp

lemma fold_max_init: "(a::nat) \<le> fold max xs a"
proof (induction xs arbitrary: a)
  case Nil
  then show ?case by simp
next
  case (Cons y ys)
  have "a \<le> max y a" by simp
  also have "\<dots> \<le> fold max ys (max y a)" by (rule Cons.IH)
  finally show ?case by simp
qed

lemma fold_max_ge: "(x::nat) \<in> set xs \<Longrightarrow> x \<le> fold max xs a"
proof (induction xs arbitrary: a)
  case Nil
  then show ?case by simp
next
  case (Cons y ys)
  show ?case
  proof (cases "x = y")
    case True
    have "y \<le> max y a" by simp
    also have "\<dots> \<le> fold max ys (max y a)" by (rule fold_max_init)
    finally show ?thesis using True by simp
  next
    case False
    with Cons show ?thesis by simp
  qed
qed

lemma height_child: "c \<in> set (Children n) \<Longrightarrow> height c < height n"
  by (cases n) (auto simp: less_Suc_eq_le intro: fold_max_ge)

lemma self_in_nodes: "n \<in> set (nodes n)"
  by (cases n) simp

lemma child_nodes_subset: "c \<in> set (Children n) \<Longrightarrow> set (nodes c) \<subseteq> set (nodes n)"
  by (cases n) auto

lemma names_consistent_child:
  "names_consistent ct n \<Longrightarrow> c \<in> set (Children n) \<Longrightarrow> names_consistent ct c"
  using child_nodes_subset unfolding names_consistent_def by blast

lemma names_consistent_self:
  "names_consistent ct n \<Longrightarrow> ClassNodes ct (Name n) = Some n"
  using self_in_nodes unfolding names_consistent_def by blast

lemma json_exact_sel:
  "json_exact c2c n = JSONNode (Name n) (c2c (ID n)) (map (json_exact c2c) (Children n))"
  by (cases n) simp

lemma populate_loop_from_node:
  assumes node: "\<And>n s. names_consistent ct n \<Longrightarrow> height n \<le> fuel \<Longrightarrow>
      jsonRecPopulate fuel ct c2c (JSONNode (Name n) s []) =
        Inr (JSONNode (Name n) s (map (json_exact c2c) (Children n)))"
  shows "\<forall>c \<in> set cs. names_consistent ct c \<and> height c \<le> fuel \<Longrightarrow>
     jsonRecPopulate_loop fuel ct c2c cs (JSONNode nm s acc) =
       Inr (JSONNode nm s (acc @ map (json_exact c2c) cs))"
proof (induction cs arbitrary: acc)
  case Nil
  then show ?case by simp
next
  case (Cons c cs)
  have c: "names_consistent ct c" "height c \<le> fuel" using Cons.prems by auto
  have lk: "ClassNodes ct (Name c) = Some c" using c(1) by (rule names_consistent_self)
  have ch: "jsonRecPopulate fuel ct c2c (JSONNode (Name c) (c2c (ID c)) []) =
      Inr (json_exact c2c c)"
    using node [OF c] by (simp add: json_exact_sel [symmetric])
  have rest: "jsonRecPopulate_loop fuel ct c2c cs (JSONNode nm s (acc @ [json_exact c2c c])) =
      Inr (JSONNode nm s ((acc @ [json_exact c2c c]) @ map (json_exact c2c) cs))"
    using Cons.prems by (intro Cons.IH) simp
  show ?case
    by (simp add: lk ch rest)
qed

lemma populate_node:
  "names_consistent ct n \<Longrightarrow> height n \<le> fuel \<Longrightarrow>
   jsonRecPopulate fuel ct c2c (JSONNode (Name n) s []) =
     Inr (JSONNode (Name n) s (map (json_exact c2c) (Children n)))"
proof (induction fuel arbitrary: n s)
  case 0
  then show ?case using height_pos [of n] by simp
next
  case (Suc fuel)
  have lk: "ClassNodes ct (Name n) = Some n" using Suc.prems(1) by (rule names_consistent_self)
  have kids: "\<forall>c \<in> set (Children n). names_consistent ct c \<and> height c \<le> fuel"
    using Suc.prems height_child names_consistent_child by fastforce
  have "jsonRecPopulate_loop fuel ct c2c (Children n) (JSONNode (Name n) s []) =
      Inr (JSONNode (Name n) s ([] @ map (json_exact c2c) (Children n)))"
  proof (rule populate_loop_from_node)
    show "\<And>n s. names_consistent ct n \<Longrightarrow> height n \<le> fuel \<Longrightarrow>
        jsonRecPopulate fuel ct c2c (JSONNode (Name n) s []) =
          Inr (JSONNode (Name n) s (map (json_exact c2c) (Children n)))"
      by (rule Suc.IH)
    show "\<forall>c \<in> set (Children n). names_consistent ct c \<and> height c \<le> fuel"
      by (rule kids)
  qed
  then show ?case by (simp add: lk)
qed

lemma populate_root:
  "names_consistent ct n \<Longrightarrow> height n \<le> fuel \<Longrightarrow>
   jsonRecPopulate fuel ct c2c (JSONNode (Name n) (c2c (ID n)) []) = Inr (json_exact c2c n)"
  by (simp add: populate_node json_exact_sel [symmetric])

lemma spec_json_exact: "spec_json False kmers n = json_exact (spec_count kmers) n"
  by (induction n) simp

lemma spec_json_cum: "spec_json True kmers n = jsonRecSize (json_exact (spec_count kmers) n)"
  by (induction n) (simp add: jsonRecSize_loop_eq comp_def cong: map_cong)

lemma label_JSONNode: "label (JSONNode name sz cs) = (name, sz)"
  by (simp add: label_def)

lemma WriteClassJSON_eq:
  assumes "names_consistent (ClassTree rg) (Root (ClassTree rg))"
    and "ID (Root (ClassTree rg)) = 0"
    and "height (Root (ClassTree rg)) \<le> fuel"
    and "Create (Name_rg rg @ ''.classtree.json'') = Inr outfile"
    and "\<forall>t. MarshalIndent t = Inr (encode t)"
  shows "WriteClassJSON Create MarshalIndent Fprint fuel rg useCumSize printLeaves =
     Inr (spec_export useCumSize printLeaves (Kmers rg) (Root (ClassTree rg)),
          Fprint outfile
            (encode (spec_export useCumSize printLeaves (Kmers rg) (Root (ClassTree rg)))))"
proof -
  let ?ct = "ClassTree rg"
  let ?c2c = "spec_count (Kmers rg)"
  have "jsonRecPopulate fuel ?ct ?c2c (JSONNode (Name (Root ?ct)) (?c2c (ID (Root ?ct))) []) =
      Inr (json_exact ?c2c (Root ?ct))"
    using assms(1,3) by (rule populate_root)
  then have pop: "jsonRecPopulate fuel ?ct ?c2c (JSONNode (Name (Root ?ct)) (?c2c 0) []) =
      Inr (json_exact ?c2c (Root ?ct))"
    by (simp add: assms(2))
  have enc: "MarshalIndent t = Inr (encode t)" for t
    using assms(5) by simp
  show ?thesis
    by (cases useCumSize; cases printLeaves)
      (simp_all add: WriteClassJSON_def Let_def classToCount_spec pop assms(4) enc
        spec_export_def spec_json_exact spec_json_cum)
qed

lemma WriteClassJSON_Create_fails:
  assumes "Create (Name_rg rg @ ''.classtree.json'') = Inl err"
  shows "WriteClassJSON Create MarshalIndent Fprint fuel rg useCumSize printLeaves = Inl err"
  using assms by (simp add: WriteClassJSON_def Let_def)

lemma spec_export_Size:
  "Size (spec_export useCumSize printLeaves kmers root) = Size (spec_json useCumSize kmers root)"
  by (cases "spec_json useCumSize kmers root") (simp add: spec_export_def deleteLeaves_loop_eq)

lemma json_nodes_self: "json_nodes t = t # tl (json_nodes t)"
  by (cases t) simp

lemma deleteLeaves_children_labels:
  assumes "\<And>c. c \<in> set cs \<Longrightarrow>
      map label (json_nodes (deleteLeaves c)) =
        label c # map label (filter (\<lambda>n. Children_json n \<noteq> []) (tl (json_nodes c)))"
  shows "concat (map (\<lambda>c. map label (json_nodes (deleteLeaves c)))
                  (filter (\<lambda>c. Children_json c \<noteq> []) cs)) =
         map label (filter (\<lambda>n. Children_json n \<noteq> []) (concat (map json_nodes cs)))"
  using assms
proof (induction cs)
  case Nil
  then show ?case by simp
next
  case (Cons c cs)
  have IH: "concat (map (\<lambda>c. map label (json_nodes (deleteLeaves c)))
                  (filter (\<lambda>c. Children_json c \<noteq> []) cs)) =
         map label (filter (\<lambda>n. Children_json n \<noteq> []) (concat (map json_nodes cs)))"
    using Cons.prems by (intro Cons.IH) simp
  show ?case
  proof (cases "Children_json c = []")
    case True
    then have "json_nodes c = [c]" by (cases c) simp
    with True IH show ?thesis by simp
  next
    case False
    have "map label (json_nodes (deleteLeaves c)) =
        label c # map label (filter (\<lambda>n. Children_json n \<noteq> []) (tl (json_nodes c)))"
      using Cons.prems by simp
    also have "\<dots> = map label (filter (\<lambda>n. Children_json n \<noteq> []) (c # tl (json_nodes c)))"
      using False by simp
    also have "c # tl (json_nodes c) = json_nodes c"
      by (rule json_nodes_self [symmetric])
    finally show ?thesis using False IH by simp
  qed
qed

lemma deleteLeaves_labels:
  "map label (json_nodes (deleteLeaves t)) =
     label t # map label (filter (\<lambda>n. Children_json n \<noteq> []) (tl (json_nodes t)))"
proof (induction t)
  case (JSONNode name sz cs)
  have "concat (map (\<lambda>c. map label (json_nodes (deleteLeaves c)))
                  (filter (\<lambda>c. Children_json c \<noteq> []) cs)) =
         map label (filter (\<lambda>n. Children_json n \<noteq> []) (concat (map json_nodes cs)))"
    by (rule deleteLeaves_children_labels) (rule JSONNode.IH)
  then show ?case
    by (simp add: deleteLeaves_loop_eq label_JSONNode map_concat comp_def)
qed

lemma spec_json_sel:
  "Name_json (spec_json cum kmers n) = Name n"
  "Children_json (spec_json cum kmers n) = map (spec_json cum kmers) (Children n)"
  by (cases n; simp)+

lemma json_nodes_spec_json:
  "json_nodes (spec_json cum kmers n) = map (spec_json cum kmers) (nodes n)"
  by (induction n) (simp add: map_concat comp_def cong: map_cong)

lemma nodes_self: "nodes n = n # tl (nodes n)"
  by (cases n) simp

lemma sum_list_map_concat:
  "sum_list (map f (concat xss)) = sum_list (map (\<lambda>xs. sum_list (map f xs)) xss)"
  for f :: "'a \<Rightarrow> 64 word"
  by (induction xss) simp_all

lemma spec_json_cum_size:
  "Size (spec_json True kmers n) = sum_list (map (\<lambda>x. spec_count kmers (ID x)) (nodes n))"
proof (induction n)
  case (ClassNode name i children)
  have "sum_list (map (\<lambda>c. Size (spec_json True kmers c)) children) =
        sum_list (map (\<lambda>c. sum_list (map (\<lambda>x. spec_count kmers (ID x)) (nodes c))) children)"
    using ClassNode.IH by (simp cong: map_cong)
  also have "\<dots> = sum_list (map (\<lambda>x. spec_count kmers (ID x)) (concat (map nodes children)))"
    by (simp add: sum_list_map_concat comp_def)
  finally show ?case by simp
qed

lemma spec_json_exact_size:
  "Size (spec_json False kmers n) = spec_count kmers (ID n)"
  by (cases n) simp

lemma double_count:
  "sum_list (map (\<lambda>n. length (filter (\<lambda>k. f k = g n) ks)) ns) =
   sum_list (map (\<lambda>k. length (filter (\<lambda>n. g n = f k) ns)) ks)"
proof (induction ks)
  case Nil
  then show ?case by simp
next
  case (Cons k ks)
  have "sum_list (map (\<lambda>n. length (filter (\<lambda>k. f k = g n) (k # ks))) ns) =
        sum_list (map (\<lambda>n. (if f k = g n then 1 else 0) + length (filter (\<lambda>k. f k = g n) ks)) ns)"
    by (intro arg_cong [where f = sum_list] map_cong) auto
  also have "\<dots> = sum_list (map (\<lambda>n. if f k = g n then 1 else 0) ns) +
        sum_list (map (\<lambda>n. length (filter (\<lambda>k. f k = g n) ks)) ns)"
    by (simp add: sum_list_addf)
  also have "sum_list (map (\<lambda>n. if f k = g n then 1 else 0) ns) =
        length (filter (\<lambda>n. g n = f k) ns)"
    by (induction ns) auto
  finally show ?case using Cons.IH by simp
qed

lemma of_nat_sum_list: "of_nat (sum_list (map f xs)) = sum_list (map (\<lambda>x. of_nat (f x)) xs)"
  by (induction xs) simp_all

lemma sum_spec_count:
  assumes "\<forall>kmer \<in> set kmers. length (filter (\<lambda>n. ID n = lca_ID_of kmer) ns) = 1"
  shows "sum_list (map (\<lambda>x. spec_count kmers (ID x)) ns) = of_nat (length kmers)"
proof -
  have "sum_list (map (\<lambda>x. spec_count kmers (ID x)) ns) =
      of_nat (sum_list (map (\<lambda>n. length (filter (\<lambda>k. lca_ID_of k = ID n) kmers)) ns))"
    by (simp add: spec_count_def of_nat_sum_list)
  also have "sum_list (map (\<lambda>n. length (filter (\<lambda>k. lca_ID_of k = ID n) kmers)) ns) =
      sum_list (map (\<lambda>k. length (filter (\<lambda>n. ID n = lca_ID_of k) ns)) kmers)"
    by (rule double_count)
  also have "\<dots> = sum_list (map (\<lambda>k. 1) kmers)"
    using assms by (intro arg_cong [where f = sum_list] map_cong) auto
  also have "\<dots> = length kmers"
    by (simp add: sum_list_triv)
  finally show ?thesis .
qed

lemma deleteLeaves_Size: "Size (deleteLeaves t) = Size t"
  by (cases t) simp

lemma example_hyps:
  "names_consistent (ClassTree example_rg) (Root (ClassTree example_rg))"
  "ID (Root (ClassTree example_rg)) = 0"
  "height (Root (ClassTree example_rg)) \<le> 3"
  by code_simp+

lemma example_files:
  "buffer_Create (Name_rg example_rg @ ''.classtree.json'') = Inr []"
  "\<forall>t. (\<lambda>t. Inr (example_MarshalIndent t)) t = Inr (example_MarshalIndent t)"
  by (simp_all add: buffer_Create_def)

lemma example_spec_export:
  "spec_export False True (Kmers example_rg) (Root (ClassTree example_rg)) =
     JSONNode ''root'' 1
       [JSONNode ''A'' 0 [JSONNode ''A/B'' 2 [], JSONNode ''A/C'' 1 []],
        JSONNode ''D'' 0 []]"
  "spec_export True True (Kmers example_rg) (Root (ClassTree example_rg)) =
     JSONNode ''root'' 4
       [JSONNode ''A'' 3 [JSONNode ''A/B'' 2 [], JSONNode ''A/C'' 1 []],
        JSONNode ''D'' 0 []]"
  "spec_export True False (Kmers example_rg) (Root (ClassTree example_rg)) =
     JSONNode ''root'' 4 [JSONNode ''A'' 3 []]"
  by code_simp+

text \<open>
  Claim C4. The export is a tree of name, size and children that mirrors the class tree:
  each node's size is the number of stored k-mer records whose \<open>lcaID\<close> (the 16-bit value at
  byte offset 8 of the record) is that node's id when the cumulative flag is off, and that
  number plus the sum of its children's sizes when the flag is on. It holds when the file
  can be created and the encoder does not fail, for a class tree whose name map is
  consistent and whose root has id 0, given fuel for the height of the tree; when leaves
  are not printed, the tree is then pruned by \<open>deleteLeaves\<close>. The text written to the
  file is the encoding of that tree.
\<close>

theorem WriteClassJSON_mirrors_class_tree:
  assumes "names_consistent (ClassTree rg) (Root (ClassTree rg))"
    and "ID (Root (ClassTree rg)) = 0"
    and "height (Root (ClassTree rg)) \<le> fuel"
    and "Create (Name_rg rg @ ''.classtree.json'') = Inr outfile"
    and "\<forall>t. MarshalIndent t = Inr (encode t)"
  shows "WriteClassJSON Create MarshalIndent Fprint fuel rg useCumSize printLeaves =
     Inr (if printLeaves then spec_json useCumSize (Kmers rg) (Root (ClassTree rg))
          else deleteLeaves (spec_json useCumSize (Kmers rg) (Root (ClassTree rg))),
          Fprint outfile
            (encode (if printLeaves then spec_json useCumSize (Kmers rg) (Root (ClassTree rg))
                     else deleteLeaves (spec_json useCumSize (Kmers rg) (Root (ClassTree rg))))))"
  using WriteClassJSON_eq [where Create = Create and MarshalIndent = MarshalIndent and encode = encode and Fprint = Fprint,
      OF assms, of useCumSize printLeaves]
  by (simp only: spec_export_def)

theorem WriteClassJSON_mirrors_class_tree_witness:
  "names_consistent (ClassTree example_rg) (Root (ClassTree example_rg)) \<and>
   ID (Root (ClassTree example_rg)) = 0 \<and>
   height (Root (ClassTree example_rg)) \<le> 3 \<and>
   buffer_Create (Name_rg example_rg @ ''.classtree.json'') = Inr [] \<and>
   WriteClassJSON buffer_Create (\<lambda>t. Inr (example_MarshalIndent t)) buffer_Fprint
       3 example_rg False True =
     Inr (JSONNode ''root'' 1
            [JSONNode ''A'' 0 [JSONNode ''A/B'' 2 [], JSONNode ''A/C'' 1 []],
             JSONNode ''D'' 0 []],
          buffer_Fprint []
            (example_MarshalIndent
              (JSONNode ''root'' 1
                 [JSONNode ''A'' 0 [JSONNode ''A/B'' 2 [], JSONNode ''A/C'' 1 []],
                  JSONNode ''D'' 0 []]))) \<and>
   WriteClassJSON buffer_Create (\<lambda>t. Inr (example_MarshalIndent t)) buffer_Fprint
       3 example_rg True True =
     Inr (JSONNode ''root'' 4
            [JSONNode ''A'' 3 [JSONNode ''A/B'' 2 [], JSONNode ''A/C'' 1 []],
             JSONNode ''D'' 0 []],
          buffer_Fprint []
            (example_MarshalIndent
              (JSONNode ''root'' 4
                 [JSONNode ''A'' 3 [JSONNode ''A/B'' 2 [], JSONNode ''A/C'' 1 []],
                  JSONNode ''D'' 0 []])))"
  using WriteClassJSON_mirrors_class_tree [where Create = buffer_Create and MarshalIndent = "\<lambda>t. Inr (example_MarshalIndent t)"
        and encode = example_MarshalIndent and Fprint = buffer_Fprint,
        OF example_hyps example_files, of False True]
    WriteClassJSON_mirrors_class_tree [where Create = buffer_Create and MarshalIndent = "\<lambda>t. Inr (example_MarshalIndent t)"
        and encode = example_MarshalIndent and Fprint = buffer_Fprint,
        OF example_hyps example_files, of True True]
    example_hyps example_files(1) example_spec_export(1,2)
  by (simp add: spec_export_def)

text \<open>
  Claim C9. With the cumulative flag on, the size of the root is the number of stored
  k-mer records (as a \<open>uint64\<close>), provided every record's \<open>lcaID\<close> is the id of exactly one
  node of the class tree: the counts of the nodes partition the records and the recursive
  sum keeps the total. Printing leaves or not does not change the root's size. As for
  claim C4, the file can be created and the encoder does not fail.
\<close>

theorem root_cumulative_size_total:
  assumes "names_consistent (ClassTree rg) (Root (ClassTree rg))"
    and "ID (Root (ClassTree rg)) = 0"
    and "height (Root (ClassTree rg)) \<le> fuel"
    and "Create (Name_rg rg @ ''.classtree.json'') = Inr outfile"
    and "\<forall>t. MarshalIndent t = Inr (encode t)"
    and "lca_IDs_name_one_node rg"
  shows "\<exists>root written.
           WriteClassJSON Create MarshalIndent Fprint fuel rg True printLeaves =
             Inr (root, written) \<and>
           Size root = of_nat (length (Kmers rg))"
proof -
  have one: "\<forall>kmer \<in> set (Kmers rg).
      length (filter (\<lambda>n. ID n = lca_ID_of kmer) (nodes (Root (ClassTree rg)))) = 1"
    using assms(6) by (simp add: lca_IDs_name_one_node_def)
  have "Size (spec_json True (Kmers rg) (Root (ClassTree rg))) = of_nat (length (Kmers rg))"
    unfolding spec_json_cum_size using one by (rule sum_spec_count)
  then have "Size (spec_export True printLeaves (Kmers rg) (Root (ClassTree rg))) =
      of_nat (length (Kmers rg))"
    by (simp only: spec_export_Size)
  then show ?thesis
    unfolding WriteClassJSON_eq [where Create = Create and MarshalIndent = MarshalIndent and encode = encode and Fprint = Fprint,
        OF assms(1-5)]
    by blast
qed

theorem root_cumulative_size_total_witness:
  "names_consistent (ClassTree example_rg) (Root (ClassTree example_rg)) \<and>
   ID (Root (ClassTree example_rg)) = 0 \<and>
   height (Root (ClassTree example_rg)) \<le> 3 \<and>
   buffer_Create (Name_rg example_rg @ ''.classtree.json'') = Inr [] \<and>
   lca_IDs_name_one_node example_rg \<and>
   length (Kmers example_rg) = 4 \<and>
   (\<exists>root written.
      WriteClassJSON buffer_Create (\<lambda>t. Inr (example_MarshalIndent t)) buffer_Fprint
        3 example_rg True False = Inr (root, written) \<and>
      Size root = 4)"
proof -
  have one: "lca_IDs_name_one_node example_rg" by code_simp
  have len: "length (Kmers example_rg) = 4" by code_simp
  show ?thesis
    using root_cumulative_size_total [where Create = buffer_Create and MarshalIndent = "\<lambda>t. Inr (example_MarshalIndent t)"
        and encode = example_MarshalIndent and Fprint = buffer_Fprint,
        OF example_hyps example_files one, of False]
      example_hyps example_files(1) one len
    by simp
qed

text \<open>
  Claim C10. When leaves are not printed, the exported tree keeps the root and exactly the
  nodes that have children, in their order, and drops every leaf at every depth; each node
  it keeps shows the name and the size it has in the export with leaves. So with the
  cumulative flag on a kept node's size is the sum of the counts over its whole subtree
  of the class tree, the dropped leaves included; with the flag off it is the node's own
  count. As for claim C4, the file can be created and the encoder does not fail.
\<close>

theorem deleteLeaves_in_export:
  assumes "names_consistent (ClassTree rg) (Root (ClassTree rg))"
    and "ID (Root (ClassTree rg)) = 0"
    and "height (Root (ClassTree rg)) \<le> fuel"
    and "Create (Name_rg rg @ ''.classtree.json'') = Inr outfile"
    and "\<forall>t. MarshalIndent t = Inr (encode t)"
  shows "\<exists>full pruned.
      WriteClassJSON Create MarshalIndent Fprint fuel rg useCumSize True =
        Inr (full, Fprint outfile (encode full)) \<and>
      WriteClassJSON Create MarshalIndent Fprint fuel rg useCumSize False =
        Inr (pruned, Fprint outfile (encode pruned)) \<and>
      map label (json_nodes pruned) =
        label full # map label (filter (\<lambda>n. Children_json n \<noteq> []) (tl (json_nodes full))) \<and>
      map label (json_nodes pruned) =
        map (\<lambda>n. (Name n,
                  if useCumSize
                  then sum_list (map (\<lambda>x. spec_count (Kmers rg) (ID x)) (nodes n))
                  else spec_count (Kmers rg) (ID n)))
          (Root (ClassTree rg) #
           filter (\<lambda>n. Children n \<noteq> []) (tl (nodes (Root (ClassTree rg)))))"
proof -
  let ?root = "Root (ClassTree rg)"
  let ?full = "spec_json useCumSize (Kmers rg) ?root"
  let ?nl = "\<lambda>n. Children_json n \<noteq> []"
  have lab: "label (spec_json useCumSize (Kmers rg) n) =
      (Name n, if useCumSize
               then sum_list (map (\<lambda>x. spec_count (Kmers rg) (ID x)) (nodes n))
               else spec_count (Kmers rg) (ID n))" for n
    by (cases useCumSize)
      (simp_all add: label_def spec_json_sel spec_json_cum_size spec_json_exact_size)
  have tl_nodes: "tl (json_nodes ?full) = map (spec_json useCumSize (Kmers rg)) (tl (nodes ?root))"
    by (simp add: json_nodes_spec_json map_tl)
  have filt: "filter ?nl (map (spec_json useCumSize (Kmers rg)) ns) =
      map (spec_json useCumSize (Kmers rg)) (filter (\<lambda>n. Children n \<noteq> []) ns)" for ns
    by (induction ns) (simp_all add: spec_json_sel)
  have a: "map label (json_nodes (deleteLeaves ?full)) =
      label ?full # map label (filter ?nl (tl (json_nodes ?full)))"
    by (rule deleteLeaves_labels)
  have b: "label ?full # map label (filter ?nl (tl (json_nodes ?full))) =
      map (\<lambda>n. (Name n,
                  if useCumSize
                  then sum_list (map (\<lambda>x. spec_count (Kmers rg) (ID x)) (nodes n))
                  else spec_count (Kmers rg) (ID n)))
          (?root # filter (\<lambda>n. Children n \<noteq> []) (tl (nodes ?root)))"
    unfolding tl_nodes filt by (simp add: lab comp_def)
  have full: "WriteClassJSON Create MarshalIndent Fprint fuel rg useCumSize True =
      Inr (?full, Fprint outfile (encode ?full))"
    using WriteClassJSON_eq [where Create = Create and MarshalIndent = MarshalIndent and encode = encode and Fprint = Fprint,
        OF assms, of useCumSize True]
    by (simp only: spec_export_def if_True)
  have pruned: "WriteClassJSON Create MarshalIndent Fprint fuel rg useCumSize False =
      Inr (deleteLeaves ?full, Fprint outfile (encode (deleteLeaves ?full)))"
    using WriteClassJSON_eq [where Create = Create and MarshalIndent = MarshalIndent and encode = encode and Fprint = Fprint,
        OF assms, of useCumSize False]
    by (simp only: spec_export_def if_False)
  from full pruned a b show ?thesis
    by (intro exI [of _ ?full] exI [of _ "deleteLeaves ?full"]) (simp only: simp_thms)
qed

theorem deleteLeaves_in_export_witness:
  "names_consistent (ClassTree example_rg) (Root (ClassTree example_rg)) \<and>
   ID (Root (ClassTree example_rg)) = 0 \<and>
   height (Root (ClassTree example_rg)) \<le> 3 \<and>
   buffer_Create (Name_rg example_rg @ ''.classtree.json'') = Inr [] \<and>
   (\<exists>full pruned.
      WriteClassJSON buffer_Create (\<lambda>t. Inr (example_MarshalIndent t)) buffer_Fprint
        3 example_rg True True = Inr (full, buffer_Fprint [] (example_MarshalIndent full)) \<and>
      WriteClassJSON buffer_Create (\<lambda>t. Inr (example_MarshalIndent t)) buffer_Fprint
        3 example_rg True False =
        Inr (pruned, buffer_Fprint [] (example_MarshalIndent pruned)) \<and>
      map label (json_nodes pruned) =
        label full # map label (filter (\<lambda>n. Children_json n \<noteq> []) (tl (json_nodes full))) \<and>
      map label (json_nodes pruned) = [(''root'', 4), (''A'', 3)])"
proof -
  have vals: "map (\<lambda>n. (Name n, sum_list (map (\<lambda>x. spec_count (Kmers example_rg) (ID x)) (nodes n))))
          (Root (ClassTree example_rg) #
           filter (\<lambda>n. Children n \<noteq> []) (tl (nodes (Root (ClassTree example_rg))))) =
        [(''root'', 4), (''A'', 3)]"
    by code_simp
  show ?thesis
    using deleteLeaves_in_export [where Create = buffer_Create and MarshalIndent = "\<lambda>t. Inr (example_MarshalIndent t)"
        and encode = example_MarshalIndent and Fprint = buffer_Fprint,
        OF example_hyps example_files, of True]
      example_hyps example_files(1) vals
    by simp
qed

section \<open>Properties of the dump\<close>

lemma buffer_Fprintf_apply: "buffer_Fprintf buf text = Inr (buf @ text)"
  by (simp add: buffer_Fprintf_def)

lemma fillSeq_spec_decode:
  "length buf \<le> 32 \<Longrightarrow> fillSeq buf w = Inr (spec_decode (length buf) w)"
  by (simp add: fillSeq_eq spec_decode_def)

lemma length_spec_decode [simp]: "length (spec_decode len w) = len"
  by (simp add: spec_decode_def)

lemma find_at_index:
  assumes "j < length xs" "P (xs ! j)" "\<forall>i < j. \<not> P (xs ! i)"
  shows "find P xs = Some (xs ! j)"
  using assms by (auto simp: find_Some_iff)

lemma NodesByID_indexed_nth:
  assumes "NodesByID_indexed ct" "i < length (NodesByID ct)"
  shows "ID (NodesByID ct ! i) = of_nat i"
proof -
  have "ID (NodesByID ct ! i) = map ID (NodesByID ct) ! i"
    using assms(2) by simp
  also have "\<dots> = map of_nat [0..<length (NodesByID ct)] ! i"
    using assms(1) by (simp add: NodesByID_indexed_def)
  also have "\<dots> = of_nat i"
    using assms(2) by simp
  finally show ?thesis .
qed

lemma spec_class_name_indexed:
  assumes "NodesByID_indexed ct" "unat i < length (NodesByID ct)"
  shows "spec_class_name ct i = Name (NodesByID ct ! unat i)"
proof -
  have here: "ID (NodesByID ct ! unat i) = i"
    using NodesByID_indexed_nth [OF assms] by simp
  have before: "\<forall>j < unat i. ID (NodesByID ct ! j) \<noteq> i"
  proof (intro allI impI)
    fix j assume j: "j < unat i"
    then have "j < length (NodesByID ct)" using assms(2) by simp
    then have "ID (NodesByID ct ! j) = of_nat j"
      by (rule NodesByID_indexed_nth [OF assms(1)])
    moreover have "(of_nat j :: 16 word) \<noteq> i"
    proof
      assume "(of_nat j :: 16 word) = i"
      then have "unat (of_nat j :: 16 word) = unat i" by simp
      moreover have "unat i < 2 ^ LENGTH(16)" by (rule unsigned_less)
      then have "j < 2 ^ 16" using j by simp
      ultimately show False using j by (simp add: unat_of_nat)
    qed
    ultimately show "ID (NodesByID ct ! j) \<noteq> i" by simp
  qed
  have "find (\<lambda>n. ID n = i) (NodesByID ct) = Some (NodesByID ct ! unat i)"
    using assms(2) here before by (intro find_at_index) auto
  then show ?thesis by (simp add: spec_class_name_def)
qed

lemma WriteMins_kmers_buffer:
  assumes "NodesByID_indexed (ClassTree rg)" "unat (K rg) \<le> 32"
  shows "length kmerBuf = unat (K rg) \<Longrightarrow>
     \<forall>kmer \<in> set kmers. unat (lca_ID_of kmer) < length (NodesByID (ClassTree rg)) \<Longrightarrow>
     \<exists>kmerBuf'. length kmerBuf' = unat (K rg) \<and>
       WriteMins_kmers buffer_Fprintf rg kmers kmerBuf buf =
         Inr (kmerBuf', buf @ concat (map (spec_record_line rg) kmers))"
proof (induction kmers arbitrary: kmerBuf buf)
  case Nil
  then show ?case by simp
next
  case (Cons kmer kmers)
  let ?dec = "spec_decode (unat (K rg)) (kmerSeqInt_of kmer)"
  have fs: "fillSeq kmerBuf (kmerSeqInt_of kmer) = Inr ?dec"
    using fillSeq_spec_decode [of kmerBuf] Cons.prems(1) assms(2) by simp
  have inr: "unat (lca_ID_of kmer) < length (NodesByID (ClassTree rg))"
    using Cons.prems(2) by simp
  have nm: "Name (NodesByID (ClassTree rg) ! unat (lca_ID_of kmer)) =
      spec_class_name (ClassTree rg) (lca_ID_of kmer)"
    using spec_class_name_indexed [OF assms(1) inr] by simp
  obtain kmerBuf' where kb: "length kmerBuf' = unat (K rg)"
    "WriteMins_kmers buffer_Fprintf rg kmers ?dec (buf @ spec_record_line rg kmer) =
       Inr (kmerBuf', (buf @ spec_record_line rg kmer) @ concat (map (spec_record_line rg) kmers))"
    using Cons.IH [of ?dec "buf @ spec_record_line rg kmer"] Cons.prems(2) by auto
  have wr: "buffer_Fprintf buf (spec_record_line rg kmer) = Inr (buf @ spec_record_line rg kmer)"
    by (rule buffer_Fprintf_apply)
  have ln: "[tab] @ ?dec @ '' '' @
      Name (NodesByID (ClassTree rg) ! unat (lca_ID_of kmer)) @ [newline] =
      spec_record_line rg kmer"
    by (simp add: nm spec_record_line_def)
  have "WriteMins_kmers buffer_Fprintf rg (kmer # kmers) kmerBuf buf =
      WriteMins_kmers buffer_Fprintf rg kmers ?dec (buf @ spec_record_line rg kmer)"
    unfolding WriteMins_kmers.simps Let_def fs sum.case ln wr using inr by simp
  with kb show ?case by simp
qed

lemma WriteMins_buckets_buffer:
  assumes "NodesByID_indexed (ClassTree rg)" "unat (K rg) \<le> 32" "unat (M rg) \<le> 32"
  shows "length kmerBuf = unat (K rg) \<Longrightarrow> length minBuf = unat (M rg) \<Longrightarrow>
     lca_IDs_in_tree (ClassTree rg) minMap \<Longrightarrow>
     WriteMins_buckets buffer_Fprintf rg minMap minBuf kmerBuf buf =
       Inr (buf @ concat (map (spec_bucket_text rg) minMap))"
proof (induction minMap arbitrary: kmerBuf minBuf buf)
  case Nil
  then show ?case by simp
next
  case (Cons bucket minMap)
  obtain thisMin kmers where b: "bucket = (thisMin, kmers)" by (cases bucket)
  let ?dec = "spec_decode (unat (M rg)) thisMin"
  let ?hdr = "''>'' @ ?dec @ [newline]"
  have fs: "fillSeq minBuf thisMin = Inr ?dec"
    using fillSeq_spec_decode [of minBuf] Cons.prems(2) assms(3) by simp
  have wr: "buffer_Fprintf buf ?hdr = Inr (buf @ ?hdr)"
    by (rule buffer_Fprintf_apply)
  have ids: "\<forall>kmer \<in> set kmers. unat (lca_ID_of kmer) < length (NodesByID (ClassTree rg))"
    using Cons.prems(3) b by (auto simp: lca_IDs_in_tree_def)
  have rest: "lca_IDs_in_tree (ClassTree rg) minMap"
    using Cons.prems(3) by (simp add: lca_IDs_in_tree_def)
  obtain kmerBuf' where kb: "length kmerBuf' = unat (K rg)"
    "WriteMins_kmers buffer_Fprintf rg kmers kmerBuf (buf @ ?hdr) =
       Inr (kmerBuf', (buf @ ?hdr) @ concat (map (spec_record_line rg) kmers))"
    using WriteMins_kmers_buffer [OF assms(1,2) Cons.prems(1) ids] by blast
  have IH: "WriteMins_buckets buffer_Fprintf rg minMap ?dec kmerBuf'
        ((buf @ ?hdr) @ concat (map (spec_record_line rg) kmers)) =
      Inr (((buf @ ?hdr) @ concat (map (spec_record_line rg) kmers)) @
           concat (map (spec_bucket_text rg) minMap))"
    using kb(1) rest by (intro Cons.IH) simp_all
  have step: "WriteMins_buckets buffer_Fprintf rg ((thisMin, kmers) # minMap) minBuf kmerBuf buf =
      WriteMins_buckets buffer_Fprintf rg minMap ?dec kmerBuf'
        ((buf @ ?hdr) @ concat (map (spec_record_line rg) kmers))"
    by (simp only: WriteMins_buckets.simps fs sum.case wr kb(2) prod.case)
  have bt: "spec_bucket_text rg (thisMin, kmers) =
      ?hdr @ concat (map (spec_record_line rg) kmers)"
    by (simp add: spec_bucket_text_def)
  show ?case
    unfolding b step IH by (simp add: bt)
qed

text \<open>
  Claim C3. The dump holds, for every minimizer bucket of the map in the order the loop
  visits them, one header line of \<open>>\<close> and the decoded m-mer, then one line for each k-mer
  record of the bucket: a tab, the decoded k-mer, a space and the name of the class node
  whose id is the record's \<open>lcaID\<close>; the nucleotides are lowercase letters. It holds for
  k and m of at most 32, an index whose records are labelled with ids of \<open>NodesByID\<close>,
  and a file that accepts every write.
\<close>

theorem WriteMins_dump_format:
  assumes "NodesByID_indexed (ClassTree rg)"
    and "K rg \<le> 32" and "M rg \<le> 32"
    and "lca_IDs_in_tree (ClassTree rg) minMap"
  shows "WriteMins buffer_Create buffer_Fprintf rg minMap =
           Inr (concat (map (spec_bucket_text rg) minMap))"
proof -
  have k: "unat (K rg) \<le> 32" and m: "unat (M rg) \<le> 32"
    using assms(2,3) by (simp_all add: word_le_nat_alt)
  show ?thesis
    using WriteMins_buckets_buffer [OF assms(1) k m _ _ assms(4), of
        "replicate (unat (K rg)) (CHR 0x00)" "replicate (unat (M rg)) (CHR 0x00)" "[]"]
    by (simp add: WriteMins_def Let_def buffer_Create_def)
qed

theorem WriteMins_dump_format_witness:
  "NodesByID_indexed (ClassTree example_rg) \<and>
   K example_rg \<le> 32 \<and> M example_rg \<le> 32 \<and>
   lca_IDs_in_tree (ClassTree example_rg) example_minMap \<and>
   WriteMins buffer_Create buffer_Fprintf example_rg example_minMap =
     Inr (''>ac'' @ [newline] @
          [tab] @ ''acgt A/B'' @ [newline] @
          [tab] @ ''aacg A/B'' @ [newline] @
          ''>aa'' @ [newline] @
          [tab] @ ''aaac A/C'' @ [newline])"
proof -
  have h: "NodesByID_indexed (ClassTree example_rg)"
    "K example_rg \<le> 32" "M example_rg \<le> 32"
    "lca_IDs_in_tree (ClassTree example_rg) example_minMap"
    by code_simp+
  have dump: "concat (map (spec_bucket_text example_rg) example_minMap) =
      ''>ac'' @ [newline] @
      [tab] @ ''acgt A/B'' @ [newline] @
      [tab] @ ''aacg A/B'' @ [newline] @
      ''>aa'' @ [newline] @
      [tab] @ ''aaac A/C'' @ [newline]"
    by code_simp
  show ?thesis
    using WriteMins_dump_format [OF h] h dump by simp
qed

section \<open>Properties of the host's check of k and m\<close>

lemma main_k_m_eq:
  "main_k_m k_arg m_arg =
     (if 255 < unat k_arg \<or> 255 < unat m_arg
      then Inl (Panic ''k and m must be >= 255'')
      else Inr (ucast k_arg, ucast m_arg))"
  by (simp add: main_k_m_def word_less_nat_alt)

lemma unat_ucast_u8: "unat (w :: 64 word) \<le> 255 \<Longrightarrow> unat (ucast w :: 8 word) = unat w"
  by (simp add: unsigned_ucast_eq take_bit_nat_eq_self)

lemma Generate_valid_iff:
  fixes k_arg m_arg :: "64 word"
  assumes "unat k_arg \<le> 255" "unat m_arg \<le> 255"
  shows "(1 \<le> (ucast k_arg :: 8 word) \<and> (ucast k_arg :: 8 word) \<le> 32 \<and>
          1 \<le> (ucast m_arg :: 8 word) \<and> (ucast m_arg :: 8 word) \<le> ucast k_arg) \<longleftrightarrow>
         (1 \<le> unat k_arg \<and> unat k_arg \<le> 32 \<and> 1 \<le> unat m_arg \<and> unat m_arg \<le> unat k_arg)"
  using assms by (simp add: word_le_nat_alt unat_ucast_u8)

text \<open>A valid pair reaches the build unchanged: the check does not reject everything.\<close>

lemma main_Generate_valid:
  assumes "1 \<le> unat k_arg" "unat k_arg \<le> 32" "1 \<le> unat m_arg" "unat m_arg \<le> unat k_arg"
  shows "main_Generate build k_arg m_arg = build (ucast k_arg) (ucast m_arg)"
proof -
  have le: "unat k_arg \<le> 255" "unat m_arg \<le> 255" using assms by simp_all
  have "main_k_m k_arg m_arg = Inr (ucast k_arg, ucast m_arg)"
    using le by (simp add: main_k_m_eq)
  moreover have "1 \<le> (ucast k_arg :: 8 word) \<and> (ucast k_arg :: 8 word) \<le> 32 \<and>
      1 \<le> (ucast m_arg :: 8 word) \<and> (ucast m_arg :: 8 word) \<le> ucast k_arg"
    using Generate_valid_iff [OF le] assms by blast
  then have "Generate build (ucast k_arg) (ucast m_arg) = build (ucast k_arg) (ucast m_arg)"
    unfolding Generate_def by (rule if_P)
  ultimately show ?thesis
    by (simp add: main_Generate_def split: sum.splits)
qed

text \<open>
  Claim C1. Every pair \<open>(k, m)\<close> outside \<open>1 \<le> k \<le> 32\<close>, \<open>1 \<le> m \<le> k\<close> is rejected with a
  fatal error of the kind \<open>ConfigInvalid\<close> before any index work begins: the result does
  not depend on the build, which is never started. An argument above 255 is stopped by
  the host's own panic, every other invalid pair by the validation of \<open>Generate\<close>, whose
  error the host makes fatal.
\<close>

theorem invalid_config_rejected:
  assumes "\<not> (1 \<le> unat k_arg \<and> unat k_arg \<le> 32 \<and> 1 \<le> unat m_arg \<and> unat m_arg \<le> unat k_arg)"
  shows "main_Generate build k_arg m_arg =
           Inl (if 255 < unat k_arg \<or> 255 < unat m_arg
                then Panic ''k and m must be >= 255'' else ConfigInvalid) \<and>
         is_ConfigInvalid (if 255 < unat k_arg \<or> 255 < unat m_arg
                           then Panic ''k and m must be >= 255'' else ConfigInvalid)"
proof (cases "255 < unat k_arg \<or> 255 < unat m_arg")
  case True
  then show ?thesis
    by (simp add: main_Generate_def main_k_m_eq is_ConfigInvalid_def)
next
  case False
  then have le: "unat k_arg \<le> 255" "unat m_arg \<le> 255" by simp_all
  have "main_k_m k_arg m_arg = Inr (ucast k_arg, ucast m_arg)"
    using False by (simp add: main_k_m_eq)
  moreover have "\<not> (1 \<le> (ucast k_arg :: 8 word) \<and> (ucast k_arg :: 8 word) \<le> 32 \<and>
      1 \<le> (ucast m_arg :: 8 word) \<and> (ucast m_arg :: 8 word) \<le> ucast k_arg)"
    using Generate_valid_iff [OF le] assms by blast
  then have "Generate build (ucast k_arg) (ucast m_arg) = Inl ConfigInvalid"
    unfolding Generate_def by (rule if_not_P)
  ultimately show ?thesis
    using False by (simp add: main_Generate_def is_ConfigInvalid_def)
qed

theorem invalid_config_rejected_witness:
  "\<not> (1 \<le> unat (33 :: 64 word) \<and> unat (33 :: 64 word) \<le> 32 \<and>
      1 \<le> unat (15 :: 64 word) \<and> unat (15 :: 64 word) \<le> unat (33 :: 64 word)) \<and>
   main_Generate (\<lambda>k m. Inr (k, m)) 33 15 = Inl ConfigInvalid \<and>
   main_Generate (\<lambda>k m. Inr (k, m)) 0 0 = Inl ConfigInvalid \<and>
   main_Generate (\<lambda>k m. Inr (k, m)) 15 31 = Inl ConfigInvalid \<and>
   main_Generate (\<lambda>k m. Inr (k, m)) 287 15 = Inl (Panic ''k and m must be >= 255'') \<and>
   main_Generate (\<lambda>k m. Inr (k, m)) 31 15 = Inr (31, 15)"
proof -
  have a: "\<not> (1 \<le> unat (33 :: 64 word) \<and> unat (33 :: 64 word) \<le> 32 \<and>
      1 \<le> unat (15 :: 64 word) \<and> unat (15 :: 64 word) \<le> unat (33 :: 64 word))" by simp
  have b: "\<not> (1 \<le> unat (0 :: 64 word) \<and> unat (0 :: 64 word) \<le> 32 \<and>
      1 \<le> unat (0 :: 64 word) \<and> unat (0 :: 64 word) \<le> unat (0 :: 64 word))" by simp
  have c: "\<not> (1 \<le> unat (15 :: 64 word) \<and> unat (15 :: 64 word) \<le> 32 \<and>
      1 \<le> unat (31 :: 64 word) \<and> unat (31 :: 64 word) \<le> unat (15 :: 64 word))" by simp
  have d: "\<not> (1 \<le> unat (287 :: 64 word) \<and> unat (287 :: 64 word) \<le> 32 \<and>
      1 \<le> unat (15 :: 64 word) \<and> unat (15 :: 64 word) \<le> unat (287 :: 64 word))" by simp
  have e: "main_Generate (\<lambda>k m. Inr (k, m)) 31 15 = Inr (31 :: 8 word, 15 :: 8 word)"
    by (simp add: main_Generate_def main_k_m_def Generate_def)
  show ?thesis
    using invalid_config_rejected [OF a, of "\<lambda>k m. Inr (k, m)"]
      invalid_config_rejected [OF b, of "\<lambda>k m. Inr (k, m)"]
      invalid_config_rejected [OF c, of "\<lambda>k m. Inr (k, m)"]
      invalid_config_rejected [OF d, of "\<lambda>k m. Inr (k, m)"] a e
    by simp
qed

section \<open>Properties of the reverse complement\<close>

lemma swap_groups_numeral [simp]:
  "swap_groups s m (numeral w) = (drop_bit s (numeral w) AND m) OR push_bit s (numeral w AND m)"
  by (simp add: swap_groups_def)

lemma swap_groups_0 [simp]: "swap_groups s m 0 = 0"
  by (simp add: swap_groups_def)

lemma swap_groups_1 [simp]:
  "swap_groups s m 1 = (drop_bit s 1 AND m) OR push_bit s (1 AND m)"
  by (simp add: swap_groups_def)


lemma less_numeral_split:
  "(x::nat) < numeral k \<longleftrightarrow> x < pred_numeral k \<or> x = pred_numeral k"
  by (simp add: numeral_eq_Suc less_Suc_eq)

lemma xor62: 
  assumes "x < 64"
  shows "x XOR 62 = 2 * (31 - x div 2) + x mod (2::nat)"
  using assms by (auto simp: less_numeral_split)

lemma flips_eq_xor62:
  "flip_bit (Suc 0) (flip_bit 2 (flip_bit 3 (flip_bit 4 (flip_bit 5 (n::nat))))) = n XOR 62"
  by (simp add: flip_bit_eq_xor xor.assoc)

lemma flip_bit_less: "e < 6 \<Longrightarrow> (n::nat) < 64 \<Longrightarrow> flip_bit e n < 64"
proof -
  assume e: "e < 6" and n: "n < 64"
  have "take_bit 6 (flip_bit e n) = flip_bit e (take_bit 6 n)"
    using e by (simp add: take_bit_flip_bit_eq)
  also have "take_bit 6 n = n" using n by (simp add: take_bit_nat_eq_self_iff)
  finally show ?thesis by (simp add: take_bit_nat_eq_self_iff)
qed

lemma mask_bits:
  "bit (0x3333333333333333 :: 64 word) n \<longleftrightarrow> n < 64 \<and> even (n div 2 ^ 1)"
  "bit (0x0F0F0F0F0F0F0F0F :: 64 word) n \<longleftrightarrow> n < 64 \<and> even (n div 2 ^ 2)"
  "bit (0x00FF00FF00FF00FF :: 64 word) n \<longleftrightarrow> n < 64 \<and> even (n div 2 ^ 3)"
  "bit (0x0000FFFF0000FFFF :: 64 word) n \<longleftrightarrow> n < 64 \<and> even (n div 2 ^ 4)"
  "bit (0x00000000FFFFFFFF :: 64 word) n \<longleftrightarrow> n < 64 \<and> even (n div 2 ^ 5)"
proof -
  have h: "bit (horner_sum of_bool 2 (map (\<lambda>n. even (n div 2 ^ e)) [0..<64]) :: 64 word) n
       \<longleftrightarrow> n < 64 \<and> even (n div 2 ^ e)" for e
    by (auto simp: bit_horner_sum_bit_iff possible_bit_def)
  have 1: "(0x3333333333333333 :: 64 word) = horner_sum of_bool 2 (map (\<lambda>n. even (n div 2 ^ 1)) [0..<64])"
    by (simp add: upt_conv_Cons)
  have 2: "(0x0F0F0F0F0F0F0F0F :: 64 word) = horner_sum of_bool 2 (map (\<lambda>n. even (n div 2 ^ 2)) [0..<64])"
    by (simp add: upt_conv_Cons)
  have 3: "(0x00FF00FF00FF00FF :: 64 word) = horner_sum of_bool 2 (map (\<lambda>n. even (n div 2 ^ 3)) [0..<64])"
    by (simp add: upt_conv_Cons)
  have 4: "(0x0000FFFF0000FFFF :: 64 word) = horner_sum of_bool 2 (map (\<lambda>n. even (n div 2 ^ 4)) [0..<64])"
    by (simp add: upt_conv_Cons)
  have 5: "(0x00000000FFFFFFFF :: 64 word) = horner_sum of_bool 2 (map (\<lambda>n. even (n div 2 ^ 5)) [0..<64])"
    by (simp add: upt_conv_Cons)
  show "bit (0x3333333333333333 :: 64 word) n \<longleftrightarrow> n < 64 \<and> even (n div 2 ^ 1)"
    unfolding 1 by (rule h)
  show "bit (0x0F0F0F0F0F0F0F0F :: 64 word) n \<longleftrightarrow> n < 64 \<and> even (n div 2 ^ 2)"
    unfolding 2 by (rule h)
  show "bit (0x00FF00FF00FF00FF :: 64 word) n \<longleftrightarrow> n < 64 \<and> even (n div 2 ^ 3)"
    unfolding 3 by (rule h)
  show "bit (0x0000FFFF0000FFFF :: 64 word) n \<longleftrightarrow> n < 64 \<and> even (n div 2 ^ 4)"
    unfolding 4 by (rule h)
  show "bit (0x00000000FFFFFFFF :: 64 word) n \<longleftrightarrow> n < 64 \<and> even (n div 2 ^ 5)"
    unfolding 5 by (rule h)
qed

lemma unset_bit_nat_minus: "bit (n::nat) e \<Longrightarrow> unset_bit e n = n - 2 ^ e"
proof -
  assume b: "bit n e"
  have "set_bit e (unset_bit e n) = n"
    using b by (intro bit_eqI) (auto simp: bit_simps)
  moreover have "set_bit e (unset_bit e n) = unset_bit e n + 2 ^ e"
    by (simp add: set_bit_eq bit_simps)
  ultimately show ?thesis by simp
qed

lemma flip_bit_nat_if:
  "flip_bit e (n::nat) = (if even (n div 2 ^ e) then n + 2 ^ e else n - 2 ^ e)"
  by (simp add: flip_bit_eq_if set_bit_eq unset_bit_nat_minus bit_iff_odd)

lemma div_sub_self: "(s::nat) \<le> n \<Longrightarrow> 0 < s \<Longrightarrow> (n - s) div s = n div s - 1"
  by (simp add: le_div_geq)

lemma swap_groups_bit:
  assumes m: "\<And>n. bit m n \<longleftrightarrow> n < 64 \<and> even (n div 2 ^ e)"
  shows "bit (swap_groups (2 ^ e) m w) n \<longleftrightarrow> n < 64 \<and> bit w (flip_bit e n)"
proof (cases "even (n div 2 ^ e)")
  case True
  have "\<not> (2 ^ e \<le> n \<and> even ((n - 2 ^ e) div 2 ^ e))"
  proof
    assume a: "2 ^ e \<le> n \<and> even ((n - 2 ^ e) div 2 ^ e)"
    then have "(n - 2 ^ e) div 2 ^ e = n div 2 ^ e - 1"
      by (simp add: div_sub_self)
    moreover have "0 < n div 2 ^ e" using a by (simp add: div_greater_zero_iff)
    ultimately show False using True a by (auto simp: )
  qed
  then show ?thesis
    using True
    by (auto simp: swap_groups_def bit_or_iff bit_and_iff bit_drop_bit_eq bit_push_bit_iff m
        flip_bit_nat_if add.commute dest: bit_imp_le_length)
next
  case False
  then have pos: "0 < n div 2 ^ e" by (auto intro: Nat.gr0I)
  then have ge: "2 ^ e \<le> n" by (simp add: div_greater_zero_iff)
  have "(n - 2 ^ e) div 2 ^ e = n div 2 ^ e - 1"
    using ge by (simp add: div_sub_self)
  then have ev: "even ((n - 2 ^ e) div 2 ^ e)" using False pos by simp
  show ?thesis
    using False ge ev
    by (auto simp: swap_groups_def bit_or_iff bit_and_iff bit_drop_bit_eq bit_push_bit_iff m
        flip_bit_nat_if dest: bit_imp_le_length)
qed

lemma reverse_pairs_bit:
  "bit (reverse_pairs w) n \<longleftrightarrow> n < 64 \<and> bit w (2 * (31 - n div 2) + n mod 2)"
proof (cases "n < 64")
  case False
  then show ?thesis by (auto dest: bit_imp_le_length)
next
  case True
  define w1 where "w1 = swap_groups 2 0x3333333333333333 w"
  define w2 where "w2 = swap_groups 4 0x0F0F0F0F0F0F0F0F w1"
  define w3 where "w3 = swap_groups 8 0x00FF00FF00FF00FF w2"
  define w4 where "w4 = swap_groups 16 0x0000FFFF0000FFFF w3"
  have rp: "reverse_pairs w = swap_groups 32 0x00000000FFFFFFFF w4"
    by (simp add: reverse_pairs_def Let_def w1_def w2_def w3_def w4_def)
  have s1: "bit w1 m \<longleftrightarrow> m < 64 \<and> bit w (flip_bit 1 m)" for m
    unfolding w1_def using swap_groups_bit [of "0x3333333333333333" 1 w m, OF mask_bits(1)]
    by simp
  have s2: "bit w2 m \<longleftrightarrow> m < 64 \<and> bit w1 (flip_bit 2 m)" for m
    unfolding w2_def using swap_groups_bit [of "0x0F0F0F0F0F0F0F0F" 2 w1 m, OF mask_bits(2)]
    by simp
  have s3: "bit w3 m \<longleftrightarrow> m < 64 \<and> bit w2 (flip_bit 3 m)" for m
    unfolding w3_def using swap_groups_bit [of "0x00FF00FF00FF00FF" 3 w2 m, OF mask_bits(3)]
    by simp
  have s4: "bit w4 m \<longleftrightarrow> m < 64 \<and> bit w3 (flip_bit 4 m)" for m
    unfolding w4_def using swap_groups_bit [of "0x0000FFFF0000FFFF" 4 w3 m, OF mask_bits(4)]
    by simp
  have s5: "bit (reverse_pairs w) m \<longleftrightarrow> m < 64 \<and> bit w4 (flip_bit 5 m)" for m
    unfolding rp using swap_groups_bit [of "0x00000000FFFFFFFF" 5 w4 m, OF mask_bits(5)]
    by simp
  have b5: "flip_bit 5 n < 64" using True by (simp add: flip_bit_less)
  then have b4: "flip_bit 4 (flip_bit 5 n) < 64" by (simp add: flip_bit_less)
  then have b3: "flip_bit 3 (flip_bit 4 (flip_bit 5 n)) < 64" by (simp add: flip_bit_less)
  then have b2: "flip_bit 2 (flip_bit 3 (flip_bit 4 (flip_bit 5 n))) < 64"
    by (simp add: flip_bit_less)
  have "bit (reverse_pairs w) n \<longleftrightarrow>
      bit w (flip_bit 1 (flip_bit 2 (flip_bit 3 (flip_bit 4 (flip_bit 5 n)))))"
    by (simp only: s5 s4 s3 s2 s1 True b5 b4 b3 b2 simp_thms)
  also have "flip_bit 1 (flip_bit 2 (flip_bit 3 (flip_bit 4 (flip_bit 5 n)))) = n XOR 62"
    using flips_eq_xor62 [of n] by simp
  also have "n XOR 62 = 2 * (31 - n div 2) + n mod 2"
    using True by (rule xor62)
  finally show ?thesis using True by simp
qed

lemma pair_index:
  fixes j k :: nat
  assumes "j < 2 * k"
  shows "2 * (k - 1 - j div 2) + j mod 2 < 2 * k"
    and "(2 * (k - 1 - j div 2) + j mod 2) div 2 = k - 1 - j div 2"
    and "(2 * (k - 1 - j div 2) + j mod 2) mod 2 = j mod 2"
    and "k - 1 - (k - 1 - j div 2) = j div 2"
proof -
  have q: "j div 2 < k" using assms by linarith
  have r: "j mod 2 < 2" by simp
  show "2 * (k - 1 - j div 2) + j mod 2 < 2 * k" using q r by linarith
  show "(2 * (k - 1 - j div 2) + j mod 2) div 2 = k - 1 - j div 2" by simp
  show "(2 * (k - 1 - j div 2) + j mod 2) mod 2 = j mod 2" by simp
  show "k - 1 - (k - 1 - j div 2) = j div 2" using q by linarith
qed

lemma shifted_index:
  fixes j k :: nat
  assumes "k \<le> 32" "j < 2 * k"
  shows "64 - 2 * k + j < 64"
    and "2 * (31 - (64 - 2 * k + j) div 2) + (64 - 2 * k + j) mod 2 =
         2 * (k - 1 - j div 2) + j mod 2"
proof -
  have q: "j div 2 < k" using assms(2) by linarith
  have g: "64 - 2 * k + (2 * q + r) = 2 * (32 - k + q) + r" for q r :: nat
    using assms(1) by arith
  have e: "64 - 2 * k + j = 2 * (32 - k + j div 2) + j mod 2"
    using g [of "j div 2" "j mod 2"] by simp
  show "64 - 2 * k + j < 64" using assms by linarith
  have dv: "(64 - 2 * k + j) div 2 = 32 - k + j div 2" by (subst e) simp
  have md: "(64 - 2 * k + j) mod 2 = j mod 2" by (subst e) simp
  have "31 - (32 - k + j div 2) = k - 1 - j div 2" using assms(1) q by linarith
  then show "2 * (31 - (64 - 2 * k + j) div 2) + (64 - 2 * k + j) mod 2 =
         2 * (k - 1 - j div 2) + j mod 2"
    unfolding dv md by simp
qed

lemma reverse_low_pairs_complement_bit:
  assumes "k \<le> 32"
  shows "bit (reverse_low_pairs (w XOR mask (2 * k)) k) j \<longleftrightarrow>
           j < 2 * k \<and> \<not> bit w (2 * (k - 1 - j div 2) + j mod 2)"
proof (cases "j < 2 * k")
  case False
  then have "\<not> (64 - 2 * k + j < 64)" using assms by linarith
  then have "\<not> bit (reverse_pairs (w XOR mask (2 * k))) (64 - 2 * k + j)"
    by (simp only: reverse_pairs_bit simp_thms)
  then show ?thesis
    using False by (simp only: reverse_low_pairs_def bit_drop_bit_eq comp_def simp_thms)
next
  case True
  let ?i = "2 * (k - 1 - j div 2) + j mod 2"
  have ilt: "?i < 2 * k" using True by (rule pair_index(1))
  have "bit (reverse_low_pairs (w XOR mask (2 * k)) k) j \<longleftrightarrow>
      bit (reverse_pairs (w XOR mask (2 * k))) (64 - 2 * k + j)"
    by (simp only: reverse_low_pairs_def bit_drop_bit_eq comp_def)
  also have "\<dots> \<longleftrightarrow> bit (w XOR mask (2 * k)) ?i"
    by (simp only: reverse_pairs_bit shifted_index [OF assms True] simp_thms)
  also have "\<dots> \<longleftrightarrow> \<not> bit w ?i"
    using ilt assms by (simp only: bit_xor_iff bit_mask_iff) simp
  finally show ?thesis using True by (simp only: simp_thms)
qed

lemma high_bits_kept:
  "bit (w AND NOT (mask (2 * k)) :: 64 word) j \<longleftrightarrow> \<not> j < 2 * k \<and> bit w j"
  by (auto simp: bit_and_iff bit_not_iff bit_mask_iff dest: bit_imp_le_length)

lemma reverse_complement_bit:
  assumes "k \<le> 32"
  shows "bit (reverse_complement w k) j \<longleftrightarrow>
           (if j < 2 * k then \<not> bit w (2 * (k - 1 - j div 2) + j mod 2) else bit w j)"
  by (simp only: reverse_complement_def bit_or_iff high_bits_kept
      reverse_low_pairs_complement_bit [OF assms]) auto

text \<open>
  On a sequence word of \<open>k\<close> bases nothing is set above the valid bits, before or after:
  there the result is the reversed complement alone.
\<close>

lemma reverse_complement_sequence_word:
  assumes "k \<le> 32" and "take_bit (2 * k) w = w"
  shows "reverse_complement w k = reverse_low_pairs (w XOR mask (2 * k)) k"
    and "take_bit (2 * k) (reverse_complement w k) = reverse_complement w k"
proof -
  have hi: "\<not> bit w j" if "\<not> j < 2 * k" for j
  proof -
    have "bit w j \<longleftrightarrow> bit (take_bit (2 * k) w) j" by (simp only: assms(2))
    then show ?thesis using that by (simp add: bit_take_bit_iff)
  qed
  show "reverse_complement w k = reverse_low_pairs (w XOR mask (2 * k)) k"
  proof (rule bit_eqI)
    fix j
    show "bit (reverse_complement w k) j \<longleftrightarrow> bit (reverse_low_pairs (w XOR mask (2 * k)) k) j"
      using hi [of j]
      by (simp only: reverse_complement_bit [OF assms(1)]
          reverse_low_pairs_complement_bit [OF assms(1)]) auto
  qed
  show "take_bit (2 * k) (reverse_complement w k) = reverse_complement w k"
  proof (rule bit_eqI)
    fix j
    show "bit (take_bit (2 * k) (reverse_complement w k)) j \<longleftrightarrow> bit (reverse_complement w k) j"
      using hi [of j]
      by (simp only: bit_take_bit_iff reverse_complement_bit [OF assms(1)]) auto
  qed
qed

text \<open>
  Claim C7. Reverse complement is an involution: for every 64-bit word \<open>w\<close> and every
  length \<open>k \<le> 32\<close>, the reverse complement of the reverse complement of \<open>w\<close> is \<open>w\<close>.
\<close>

theorem reverse_complement_involution:
  assumes "k \<le> 32"
  shows "reverse_complement (reverse_complement w k) k = w"
proof (rule bit_eqI)
  fix j
  show "bit (reverse_complement (reverse_complement w k) k) j \<longleftrightarrow> bit w j"
  proof (cases "j < 2 * k")
    case False
    then show ?thesis
      by (simp only: reverse_complement_bit [OF assms] if_False)
  next
    case True
    let ?i = "2 * (k - 1 - j div 2) + j mod 2"
    have ilt: "?i < 2 * k" using True by (rule pair_index(1))
    have inv: "2 * (k - 1 - ?i div 2) + ?i mod 2 = j"
      unfolding pair_index(2,3) [OF True] pair_index(4) [OF True] by simp
    show ?thesis
      by (simp only: reverse_complement_bit [OF assms] True ilt inv if_True simp_thms)
  qed
qed

lemma reverse_complement_examples:
  "reverse_complement 6 4 = 111" "reverse_complement 111 4 = 6"
  "reverse_complement 4 1 = 7" "reverse_complement 7 1 = 4"
  by (simp_all add: reverse_complement_def reverse_low_pairs_def reverse_pairs_def
      mask_eq_exp_minus_1)

theorem reverse_complement_involution_witness:
  "(4::nat) \<le> 32 \<and> reverse_complement 6 4 = 111 \<and>
   reverse_complement (reverse_complement 6 4) 4 = 6 \<and>
   (1::nat) \<le> 32 \<and> reverse_complement 4 1 = 7 \<and>
   reverse_complement (reverse_complement 4 1) 1 = 4"
proof -
  have a: "(4::nat) \<le> 32" and b: "(1::nat) \<le> 32" by simp_all
  show ?thesis
    using reverse_complement_involution [OF a, of 6] reverse_complement_involution [OF b, of 4]
      reverse_complement_examples(1,3)
    by simp
qed

section \<open>Properties of the read classifier\<close>

lemma classify_windows_hits:
  "classify_windows contains lca k wins acc =
     fold_hits lca (List.map_filter (window_hit contains k) wins) acc"
proof (induction wins arbitrary: acc)
  case Nil
  then show ?case by (simp add: List.map_filter_simps)
next
  case (Cons win wins)
  show ?case
  proof (cases "window_hit contains k win")
    case None
    then have "classify_windows contains lca k (win # wins) acc =
        classify_windows contains lca k wins acc"
      by (auto simp: window_hit_def split: option.splits)
    with None Cons.IH show ?thesis by (simp add: List.map_filter_simps)
  next
    case (Some c)
    then obtain w where w: "encode_kmer win = Some w" "contains (canonical w k) = Some c"
      by (auto simp: window_hit_def split: option.splits)
    show ?thesis
      using Some w Cons.IH by (simp add: List.map_filter_simps Let_def)
  qed
qed

lemma classify_hits: "classify contains lca k read = fold_hits lca (read_hits contains k read) None"
  by (simp add: classify_def read_hits_def classify_windows_hits)

lemma fold_hits_reaches_root:
  "n \<le> length hits \<Longrightarrow> lca_fold lca acc (take n hits) = Some root_id \<Longrightarrow>
   acc \<noteq> Some root_id \<Longrightarrow> fold_hits lca hits acc = None"
proof (induction hits arbitrary: n acc)
  case Nil
  then show ?case by simp
next
  case (Cons c cs)
  let ?a = "case acc of None \<Rightarrow> c | Some a \<Rightarrow> lca a c"
  show ?case
  proof (cases "?a = root_id")
    case True
    then show ?thesis by (simp add: Let_def)
  next
    case False
    from Cons.prems obtain m where n: "n = Suc m"
      by (cases n) auto
    have "fold_hits lca cs (Some ?a) = None"
      using Cons.prems False n by (intro Cons.IH [of m]) simp_all
    with False show ?thesis by (simp add: Let_def)
  qed
qed

lemma base_code_None_iff: "base_code c = None \<longleftrightarrow> c \<notin> set ''acgtACGT''"
  unfolding base_code_def by (simp split: if_splits)

lemma encode_from_None_iff:
  "encode_from acc bs = None \<longleftrightarrow> (\<exists>c \<in> set bs. base_code c = None)"
proof (induction bs arbitrary: acc)
  case Nil
  then show ?case by simp
next
  case (Cons c cs)
  show ?case
  proof (cases "base_code c")
    case None
    then show ?thesis by simp
  next
    case (Some b)
    with Cons.IH [of "push_bit 2 acc OR b"] show ?thesis by simp
  qed
qed

lemma encode_kmer_None_iff:
  "encode_kmer bs = None \<longleftrightarrow> (\<exists>c \<in> set bs. c \<notin> set ''acgtACGT'')"
  by (simp only: encode_kmer_def encode_from_None_iff base_code_None_iff)

lemma windows_short: "length read < k \<Longrightarrow> windows k read = []"
  by (simp add: windows_def)

text \<open>
  Claim C6. The classifier has no error result, and it answers unclassified for a read
  shorter than \<open>k\<close>, for a read all of whose windows contain a byte that is not a base,
  for a read none of whose k-mers is in the index, and for a read whose fold of \<open>lca\<close>
  over its hits reaches the root.
\<close>

theorem classify_unclassified:
  assumes "length read < k \<or>
           (\<forall>win \<in> set (windows k read). \<exists>c \<in> set win. c \<notin> set ''acgtACGT'') \<or>
           read_hits contains k read = [] \<or>
           fold_reaches_root lca (read_hits contains k read)"
  shows "classify contains lca k read = None"
proof -
  consider (short) "length read < k"
    | (ambiguous) "\<forall>win \<in> set (windows k read). \<exists>c \<in> set win. c \<notin> set ''acgtACGT''"
    | (miss) "read_hits contains k read = []"
    | (root) "fold_reaches_root lca (read_hits contains k read)"
    using assms by blast
  then show ?thesis
  proof cases
    case short
    then show ?thesis by (simp add: classify_def windows_short)
  next
    case ambiguous
    then have "\<forall>win \<in> set (windows k read). encode_kmer win = None"
      by (simp only: encode_kmer_None_iff)
    then have "read_hits contains k read = []"
      by (auto simp: read_hits_def List.map_filter_def window_hit_def filter_empty_conv)
    then show ?thesis by (simp add: classify_hits)
  next
    case miss
    then show ?thesis by (simp add: classify_hits)
  next
    case root
    then obtain n where "n \<in> set [0..<Suc (length (read_hits contains k read))]"
      and r: "lca_fold lca None (take n (read_hits contains k read)) = Some root_id"
      unfolding fold_reaches_root_def by blast
    then have "n \<le> length (read_hits contains k read)" by auto
    with r show ?thesis
      unfolding classify_hits by (intro fold_hits_reaches_root [of n]) simp_all
  qed
qed

theorem classify_unclassified_witness:
  "length ''ACG'' < (4::nat) \<and> classify example_contains example_lca 4 ''ACG'' = None \<and>
   windows 4 ''ACNTANG'' = [''ACNT'', ''CNTA'', ''NTAN'', ''TANG''] \<and>
   map encode_kmer (windows 4 ''ACNTANG'') = [None, None, None, None] \<and>
   classify example_contains example_lca 4 ''ACNTANG'' = None \<and>
   read_hits example_contains 4 ''CCCCC'' = [] \<and>
   classify example_contains example_lca 4 ''CCCCC'' = None \<and>
   read_hits example_contains 4 ''ACGTAAAA'' = [2, 4] \<and>
   fold_reaches_root example_lca (read_hits example_contains 4 ''ACGTAAAA'') \<and>
   classify example_contains example_lca 4 ''ACGTAAAA'' = None"
proof -
  have short: "length ''ACG'' < (4::nat)" by simp
  have wins: "windows 4 ''ACNTANG'' = [''ACNT'', ''CNTA'', ''NTAN'', ''TANG'']"
    by code_simp
  have enc: "map encode_kmer (windows 4 ''ACNTANG'') = [None, None, None, None]"
    by code_simp
  have amb: "\<forall>win \<in> set (windows 4 ''ACNTANG''). \<exists>c \<in> set win. c \<notin> set ''acgtACGT''"
    by code_simp
  have miss: "read_hits example_contains 4 ''CCCCC'' = []"
    by code_simp
  have hits: "read_hits example_contains 4 ''ACGTAAAA'' = [2, 4]"
    by code_simp
  have root: "fold_reaches_root example_lca (read_hits example_contains 4 ''ACGTAAAA'')"
    by code_simp
  show ?thesis
    using classify_unclassified [of "''ACG''" 4 example_contains example_lca] short
      classify_unclassified [of "''ACNTANG''" 4 example_contains example_lca] amb
      classify_unclassified [of "''CCCCC''" 4 example_contains example_lca] miss
      classify_unclassified [of "''ACGTAAAA''" 4 example_contains example_lca] root
      wins enc hits
    by simp
qed

end
